theory Spec2Isabelle
  imports Main
begin

section \<open>The Kademlia table of swarm/network/kademlia/kademlia.go\<close>

subsection \<open>Addresses, peers and node records\<close>

text \<open>
  Modelled from the spec: the type \<open>Address\<close> and the function \<open>proximity\<close> are
  declared outside kademlia.go. The spec calls an address a fixed-length bit-string and the
  proximity order of two addresses the length of their common bit-prefix.
\<close>

type_synonym address = "bool list"

fun proximity :: "address \<Rightarrow> address \<Rightarrow> nat" where
  "proximity (x # xs) (y # ys) = (if x = y then Suc (proximity xs ys) else 0)"
| "proximity _ _ = 0"

text \<open>
  Times and durations are counted in nanoseconds, as Go's \<open>time.Time\<close> and
  \<open>time.Duration\<close> are.
\<close>

type_synonym time = int

text \<open>
  The interface \<open>Node\<close>: what the table reads from a peer. \<open>Drop()\<close> has no result; the
  calls made are logged in the field \<open>dropped\<close> of the table below.
\<close>

record Node =
  Addr :: address
  URL :: string
  LastActive :: time

record NodeRecord =
  rec_Addr :: address
  rec_Url :: string
  rec_node :: "Node option"

text \<open>
  Modelled from the spec: the registry \<open>KadDb\<close> and its \<open>findOrCreate\<close> are declared
  outside kademlia.go; kademlia.go reads the field \<open>index\<close> (a map from addresses to
  records) and the per-bin sequences \<open>Nodes\<close>. The per-bin sequences hold pointers to the
  records of \<open>index\<close>: they are modelled by the addresses under which the records are
  indexed. \<open>findOrCreate\<close> returns the existing record for the address if present;
  otherwise it creates one, indexes it by address and by bin, and returns it.
\<close>

record KadDb =
  db_index :: "address \<rightharpoonup> NodeRecord"
  db_Nodes :: "address list list"

definition newKadDb :: "nat \<Rightarrow> KadDb" where
  "newKadDb maxprox = \<lparr>db_index = Map.empty, db_Nodes = replicate (maxprox + 1) []\<rparr>"

definition findOrCreate :: "KadDb \<Rightarrow> nat \<Rightarrow> address \<Rightarrow> string \<Rightarrow> NodeRecord \<times> KadDb" where
  "findOrCreate d bin a url =
     (case db_index d a of
        Some record \<Rightarrow> (record, d)
      | None \<Rightarrow>
          (let record = \<lparr>rec_Addr = a, rec_Url = url, rec_node = None\<rparr>
           in (record, d\<lparr>db_index := (db_index d)(a \<mapsto> record),
                          db_Nodes := (db_Nodes d)[bin := db_Nodes d ! bin @ [a]]\<rparr>)))"

subsection \<open>Parameters and table state\<close>

text \<open>
  \<open>MaxProx\<close>, \<open>ProxBinSize\<close> and \<open>BucketSize\<close> are sizes and are natural numbers here;
  the intervals are durations.
\<close>

record KadParams =
  MaxProx :: nat
  ProxBinSize :: nat
  BucketSize :: nat
  PurgeInterval :: int
  InitialRetryInterval :: int
  MaxIdleInterval :: int
  ConnRetryExp :: int

definition bucketSize :: nat where "bucketSize = 4"
definition proxBinSize :: nat where "proxBinSize = 2"
definition maxProx :: nat where "maxProx = 8"
definition connRetryExp :: int where "connRetryExp = 2"
definition maxPeers :: int where "maxPeers = 100"

definition purgeInterval :: int where "purgeInterval = 42 * 3600000000000"
definition initialRetryInterval :: int where "initialRetryInterval = 42 * 1000000"
definition maxIdleInterval :: int where "maxIdleInterval = 42 * 1000 * 1000000"

definition NewDefaultKadParams :: KadParams where
  "NewDefaultKadParams =
     \<lparr>MaxProx = maxProx, ProxBinSize = proxBinSize, BucketSize = bucketSize,
      PurgeInterval = purgeInterval, InitialRetryInterval = initialRetryInterval,
      MaxIdleInterval = maxIdleInterval, ConnRetryExp = connRetryExp\<rparr>"

text \<open>
  The struct \<open>Kademlia\<close> embeds \<open>*KadParams\<close>; the record extends \<open>KadParams\<close>. The lock
  is left out: every operation below runs while holding it. \<open>dropped\<close> is the log of the
  peers on which \<open>Drop()\<close> has been called, oldest first.
\<close>

record Kademlia = KadParams +
  addr :: address
  proxLimit :: nat
  proxSize :: int
  count :: int
  buckets :: "Node list list"
  db :: KadDb
  dropped :: "Node list"

text \<open>
  A run-time panic of the Go code: an index out of range or the dereference of a nil
  record pointer.
\<close>

datatype fault = IndexOutOfRange | NilDereference

text \<open>The error values that \<open>On\<close> returns.\<close>

datatype join_error = CallbackError string | BucketFull

definition New :: "address \<Rightarrow> KadParams \<Rightarrow> Kademlia" where
  "New a params =
     \<lparr>MaxProx = MaxProx params, ProxBinSize = ProxBinSize params,
      BucketSize = BucketSize params, PurgeInterval = PurgeInterval params,
      InitialRetryInterval = InitialRetryInterval params,
      MaxIdleInterval = MaxIdleInterval params, ConnRetryExp = ConnRetryExp params,
      addr = a, proxLimit = 0, proxSize = 0, count = 0,
      buckets = replicate (MaxProx params + 1) [],
      db = newKadDb (MaxProx params), dropped = []\<rparr>"

definition proximityBin :: "Kademlia \<Rightarrow> address \<Rightarrow> nat" where
  "proximityBin k other =
     (let ret = proximity (addr k) other
      in if ret > MaxProx k then MaxProx k else ret)"

subsection \<open>setProxLimit\<close>

text \<open>
  The contraction loop of \<open>setProxLimit\<close>; \<open>cur\<close> is the loop variable \<open>curr\<close>.
  Reading \<open>k.buckets[k.proxLimit]\<close> past the last bucket panics.
\<close>

function contract :: "Kademlia \<Rightarrow> nat \<Rightarrow> fault + Kademlia" where
  "contract k cur =
     (if proxSize k \<ge> int (ProxBinSize k) + int cur \<and> cur > 0
      then (if proxLimit k + 1 < length (buckets k)
            then contract (k\<lparr>proxSize := proxSize k - int cur, proxLimit := proxLimit k + 1\<rparr>)
                          (length (buckets k ! (proxLimit k + 1)))
            else Inl IndexOutOfRange)
      else Inr k)"
  by pat_completeness auto
termination
  by (relation "measure (\<lambda>(k, cur). length (buckets k) - proxLimit k)") auto

text \<open>The expansion loop of \<open>setProxLimit\<close>.\<close>

function expand :: "Kademlia \<Rightarrow> nat \<Rightarrow> fault + Kademlia" where
  "expand k r =
     (if (proxSize k < int (ProxBinSize k) \<or> r < proxLimit k) \<and> proxLimit k > 0
      then (if proxLimit k - 1 < length (buckets k)
            then expand (k\<lparr>proxLimit := proxLimit k - 1,
                            proxSize := proxSize k + int (length (buckets k ! (proxLimit k - 1)))\<rparr>) r
            else Inl IndexOutOfRange)
      else Inr k)"
  by pat_completeness auto
termination
  by (relation "measure (\<lambda>(k, r). proxLimit k)") auto

definition setProxLimit :: "Kademlia \<Rightarrow> nat \<Rightarrow> bool \<Rightarrow> fault + Kademlia" where
  "setProxLimit k r on =
     (if r < proxLimit k \<and> \<not> r < length (buckets k) then Inl IndexOutOfRange
      else if r < proxLimit k \<and> length (buckets k ! r) > 0 then Inr k
      else if on
      then (if proxLimit k < length (buckets k)
            then contract (k\<lparr>proxSize := proxSize k + 1\<rparr>) (length (buckets k ! proxLimit k))
            else Inl IndexOutOfRange)
      else expand (if r \<ge> proxLimit k then k\<lparr>proxSize := proxSize k - 1\<rparr> else k) r)"

subsection \<open>On\<close>

text \<open>
  The scan of a full bucket for its idlest member: \<open>i\<close> is the position of the head of
  the remaining list, and the triple holds the variables \<open>idle\<close>, \<open>pos\<close> and \<open>replaced\<close>
  (\<open>None\<close> for nil). \<open>now\<close> is the clock read by \<open>time.Since\<close>.
\<close>

fun idlest :: "time \<Rightarrow> Node list \<Rightarrow> nat \<Rightarrow> int \<times> nat \<times> Node option \<Rightarrow> int \<times> nat \<times> Node option" where
  "idlest now [] i acc = acc"
| "idlest now (p # ps) i (idle, pos, replaced) =
     (let idleInt = now - LastActive p
      in if idleInt > idle then idlest now ps (i + 1) (idleInt, i, Some p)
         else idlest now ps (i + 1) (idle, pos, replaced))"

text \<open>
  \<open>record.node = node\<close>, through the pointer that \<open>findOrCreate\<close> returned: the record
  indexed under the peer's address.
\<close>

definition set_record_node :: "KadDb \<Rightarrow> address \<Rightarrow> NodeRecord \<Rightarrow> Node option \<Rightarrow> KadDb" where
  "set_record_node d a record n = d\<lparr>db_index := (db_index d)(a \<mapsto> record\<lparr>rec_node := n\<rparr>)\<rparr>"

text \<open>
  The part of \<open>On\<close> after the callback: the insertion into the table of active nodes.
  The metrics counters are left out.
\<close>

definition On_insert :: "Kademlia \<Rightarrow> time \<Rightarrow> Node \<Rightarrow> nat \<Rightarrow> NodeRecord \<Rightarrow> fault + (join_error option \<times> Kademlia)" where
  "On_insert k now node index record =
     (if \<not> index < length (buckets k) then Inl IndexOutOfRange
      else
        (let bucket = buckets k ! index
         in if length bucket < BucketSize k
            then (case setProxLimit (k\<lparr>buckets := (buckets k)[index := bucket @ [node]]\<rparr>) index True of
                    Inl f \<Rightarrow> Inl f
                  | Inr k' \<Rightarrow>
                      Inr (None, k'\<lparr>db := set_record_node (db k') (Addr node) record (Some node),
                                    count := count k' + 1\<rparr>))
            else (case idlest now bucket 0 (MaxIdleInterval k, 0, None) of
                    (idle, pos, None) \<Rightarrow> Inr (Some BucketFull, k)
                  | (idle, pos, Some replaced) \<Rightarrow>
                      Inr (None, k\<lparr>dropped := dropped k @ [replaced],
                                   buckets := (buckets k)[index := bucket[pos := node]],
                                   db := set_record_node (db k) (Addr node) record (Some node),
                                   count := count k + 1\<rparr>))))"

text \<open>
  \<open>On\<close>. The callback \<open>cb\<close> is \<open>None\<close> for nil; it returns \<open>None\<close> for a nil error and
  the error's message otherwise.
\<close>

definition On :: "Kademlia \<Rightarrow> time \<Rightarrow> Node \<Rightarrow> (NodeRecord \<Rightarrow> Node \<Rightarrow> string option) option
    \<Rightarrow> fault + (join_error option \<times> Kademlia)" where
  "On k now node cb =
     (let index = proximityBin k (Addr node);
          (record, d) = findOrCreate (db k) index (Addr node) (URL node);
          k1 = k\<lparr>db := d\<rparr>
      in case (case cb of None \<Rightarrow> None | Some f \<Rightarrow> f record node) of
           Some err \<Rightarrow> Inr (Some (CallbackError err), k1)
         | None \<Rightarrow> On_insert k1 now node index record)"

subsection \<open>Off\<close>

text \<open>
  The loop of \<open>Off\<close> that looks for the peer's address in its bucket: the position of the
  first member with that address, counted from \<open>i\<close>.
\<close>

fun find_pos :: "address \<Rightarrow> Node list \<Rightarrow> nat \<Rightarrow> nat option" where
  "find_pos a [] i = None"
| "find_pos a (p # ps) i = (if a = Addr p then Some i else find_pos a ps (i + 1))"

text \<open>
  \<open>Off\<close>. The removal callback returns nothing and is not modelled; with or without
  it, a missing record (a nil pointer read from \<open>k.db.index\<close>) panics before \<open>count\<close> is
  decremented.
\<close>

definition Off :: "Kademlia \<Rightarrow> Node \<Rightarrow> fault + Kademlia" where
  "Off k node =
     (let index = proximityBin k (Addr node)
      in if \<not> index < length (buckets k) then Inl IndexOutOfRange
         else
           (let bucket = buckets k ! index
            in case (case find_pos (Addr node) bucket 0 of
                       None \<Rightarrow> Inr k
                     | Some i \<Rightarrow>
                         setProxLimit (k\<lparr>buckets := (buckets k)[index := take i bucket @ drop (i + 1) bucket]\<rparr>)
                                      index False) of
                 Inl f \<Rightarrow> Inl f
               | Inr k' \<Rightarrow>
                   (case db_index (db k') (Addr node) of
                      None \<Rightarrow> Inl NilDereference
                    | Some record \<Rightarrow>
                        Inr (k'\<lparr>db := set_record_node (db k') (Addr node) record None,
                                count := count k' - 1\<rparr>))))"

subsection \<open>Reachable table states\<close>

text \<open>
  The table states reached from a fresh table by calls of \<open>On\<close> (at any time, for any peer,
  with any callback or none, whether it returns an error or not) and of \<open>Off\<close>. A call that
  panics does not return and yields no state.
\<close>

inductive reachable :: "Kademlia \<Rightarrow> bool" where
  reach_New: "reachable (New a params)"
| reach_On: "reachable k \<Longrightarrow> On k now node cb = Inr (err, k') \<Longrightarrow> reachable k'"
| reach_Off: "reachable k \<Longrightarrow> Off k node = Inr k' \<Longrightarrow> reachable k'"

subsection \<open>FindClosest\<close>

text \<open>
  Modelled from the spec: \<open>ProxCmp\<close> is declared outside kademlia.go. The spec orders peers
  by their true distance to the target and does not say which distance that is: the distance
  is the parameter \<open>dist\<close> (\<open>dist target a\<close> is the distance of \<open>a\<close> to the target), and
  \<open>target.ProxCmp(a, b)\<close> is negative, zero or positive as \<open>a\<close> is closer to the target than
  \<open>b\<close>, equally close, or farther.
\<close>

definition ProxCmp :: "(address \<Rightarrow> address \<Rightarrow> nat) \<Rightarrow> address \<Rightarrow> address \<Rightarrow> address \<Rightarrow> int" where
  "ProxCmp dist target a b =
     (if dist target a < dist target b then - 1
      else if dist target b < dist target a then 1 else 0)"

text \<open>
  \<open>sort.Search\<close> of the Go library: binary search for the least index in \<open>[0, n)\<close> at
  which \<open>f\<close> holds (\<open>n\<close> if there is none), provided \<open>f\<close> is false on a prefix of the range
  and true on the rest; \<open>i\<close> and \<open>j\<close> are the variables of its loop.
\<close>

function Search_loop :: "nat \<Rightarrow> nat \<Rightarrow> (nat \<Rightarrow> bool) \<Rightarrow> nat" where
  "Search_loop i j f =
     (if i < j
      then (let h = (i + j) div 2
            in if \<not> f h then Search_loop (h + 1) j f else Search_loop i h f)
      else i)"
  by pat_completeness auto
termination
  by (relation "measure (\<lambda>(i, j, f). j - i)") auto

declare Search_loop.simps [simp del]

definition Search :: "nat \<Rightarrow> (nat \<Rightarrow> bool) \<Rightarrow> nat" where
  "Search n f = Search_loop 0 n f"

text \<open>
  \<open>nodesByDistance.push\<close>; \<open>limit\<close> is its parameter \<open>max\<close>. \<open>copy\<close> moves the elements
  from position \<open>ix\<close> on one place up, dropping the last one when the slice was not extended.
\<close>

record nodesByDistance =
  nodes :: "Node list"
  target :: address

definition push :: "(address \<Rightarrow> address \<Rightarrow> nat) \<Rightarrow> nodesByDistance \<Rightarrow> Node \<Rightarrow> int \<Rightarrow> nodesByDistance" where
  "push dist h node limit =
     (let ix = Search (length (nodes h))
                 (\<lambda>i. ProxCmp dist (target h) (Addr (nodes h ! i)) (Addr node) \<ge> 0);
          h1 = (if int (length (nodes h)) < limit then h\<lparr>nodes := nodes h @ [node]\<rparr> else h)
      in if ix < length (nodes h1)
         then h1\<lparr>nodes := take ix (nodes h1) @ node #
                            take (length (nodes h1) - ix - 1) (drop ix (nodes h1))\<rparr>
         else h1)"

text \<open>
  The variables of the loop of \<open>FindClosest\<close>: \<open>index\<close>, \<open>step\<close>, \<open>n\<close> and \<open>r\<close>. Two
  fields record the course of the loop and are not variables of the source: \<open>visited\<close>, the
  indices at which \<open>k.buckets\<close> has been read, in order, and \<open>stopped\<close>, whether the loop was
  left by \<open>break\<close>.
\<close>

record scan =
  s_index :: int
  s_step :: int
  s_n :: int
  s_r :: nodesByDistance
  visited :: "nat list"
  stopped :: bool

text \<open>
  One iteration of the loop in three parts: adding the entire bucket at \<open>index\<close> (every
  member is pushed and counted), the test of the \<open>break\<close>, and the turn at \<open>MaxProx\<close>
  followed by \<open>index += step\<close>. \<open>mx\<close>, \<open>mn\<close> and \<open>limit\<close> are the variables \<open>max\<close>, \<open>min\<close>
  and \<open>limit\<close>.
\<close>

definition scan_bucket :: "(address \<Rightarrow> address \<Rightarrow> nat) \<Rightarrow> Kademlia \<Rightarrow> int \<Rightarrow> scan \<Rightarrow> scan" where
  "scan_bucket dist k limit s =
     s\<lparr>s_r := foldl (\<lambda>h p. push dist h p limit) (s_r s) (buckets k ! nat (s_index s)),
       s_n := s_n s + int (length (buckets k ! nat (s_index s))),
       visited := visited s @ [nat (s_index s)]\<rparr>"

definition scan_stop :: "int \<Rightarrow> int \<Rightarrow> scan \<Rightarrow> bool" where
  "scan_stop mx mn s \<longleftrightarrow> s_n s \<ge> mn \<and> (s_step s < 0 \<or> mx = 0)"

definition scan_next :: "Kademlia \<Rightarrow> nat \<Rightarrow> scan \<Rightarrow> scan" where
  "scan_next k po s =
     (let s1 = (if s_index s = int (MaxProx k) then s\<lparr>s_index := int po, s_step := - 1\<rparr> else s)
      in s1\<lparr>s_index := s_index s1 + s_step s1\<rparr>)"

text \<open>
  The loop \<open>for index >= 0\<close>. It returns \<open>None\<close> if it runs forever; reading
  \<open>k.buckets[index]\<close> past the last bucket panics.
\<close>

partial_function (option) FindClosest_loop ::
  "(address \<Rightarrow> address \<Rightarrow> nat) \<Rightarrow> Kademlia \<Rightarrow> nat \<Rightarrow> int \<Rightarrow> int \<Rightarrow> int \<Rightarrow> scan \<Rightarrow> (fault + scan) option" where
  "FindClosest_loop dist k po mx mn limit s =
     (if s_index s \<ge> 0
      then (if \<not> nat (s_index s) < length (buckets k) then Some (Inl IndexOutOfRange)
            else (let s1 = scan_bucket dist k limit s
                  in if scan_stop mx mn s1 then Some (Inr (s1\<lparr>stopped := True\<rparr>))
                     else FindClosest_loop dist k po mx mn limit (scan_next k po s1)))
      else Some (Inr s))"

declare FindClosest_loop.simps [code]

text \<open>
  \<open>FindClosest\<close>: \<open>FindClosest_scan\<close> runs the loop from the initial values of the
  variables and returns their final values; \<open>FindClosest\<close> returns \<open>r.nodes\<close>.
\<close>

definition FindClosest_scan ::
  "(address \<Rightarrow> address \<Rightarrow> nat) \<Rightarrow> Kademlia \<Rightarrow> address \<Rightarrow> int \<Rightarrow> (fault + scan) option" where
  "FindClosest_scan dist k tgt mx =
     (let po = proximityBin k tgt;
          mn = (if mx = 0 then 1 else mx);
          limit = (if mx = 0 then maxPeers else mx)
      in FindClosest_loop dist k po mx mn limit
           \<lparr>s_index = int po, s_step = 1, s_n = 0,
            s_r = \<lparr>nodes = [], target = tgt\<rparr>, visited = [], stopped = False\<rparr>)"

definition FindClosest ::
  "(address \<Rightarrow> address \<Rightarrow> nat) \<Rightarrow> Kademlia \<Rightarrow> address \<Rightarrow> int \<Rightarrow> (fault + Node list) option" where
  "FindClosest dist k tgt mx =
     (case FindClosest_scan dist k tgt mx of
        None \<Rightarrow> None
      | Some (Inl f) \<Rightarrow> Some (Inl f)
      | Some (Inr s) \<Rightarrow> Some (Inr (nodes (s_r s))))"

subsection \<open>The invariant of the proximity core\<close>

text \<open>
  The number of peers in the bins from \<open>proxLimit\<close> up to \<open>MaxProx\<close>, and the invariant
  that \<open>setProxLimit\<close> maintains: the bucket array has \<open>MaxProx + 1\<close> bins, \<open>proxSize\<close>
  is the size of the core, no bin below \<open>proxLimit\<close> is empty, and a core that does not start
  at bin 0 holds at least \<open>ProxBinSize\<close> peers.
\<close>

definition core_size :: "Kademlia \<Rightarrow> int" where
  "core_size k = (\<Sum>i = proxLimit k..MaxProx k. int (length (buckets k ! i)))"

definition core_inv :: "Kademlia \<Rightarrow> bool" where
  "core_inv k \<longleftrightarrow>
     length (buckets k) = MaxProx k + 1 \<and> proxLimit k \<le> MaxProx k \<and>
     proxSize k = core_size k \<and>
     (\<forall>i < proxLimit k. buckets k ! i \<noteq> []) \<and>
     (0 < proxLimit k \<longrightarrow> int (ProxBinSize k) \<le> proxSize k)"

text \<open>The insertion callback, if any, returns no error.\<close>

definition accepts :: "(NodeRecord \<Rightarrow> Node \<Rightarrow> string option) option \<Rightarrow> NodeRecord \<Rightarrow> Node \<Rightarrow> bool" where
  "accepts cb rcd node \<longleftrightarrow> (case cb of None \<Rightarrow> None | Some f \<Rightarrow> f rcd node) = None"

subsection \<open>Runs of the table\<close>

text \<open>
  A sequence of calls of \<open>On\<close> (without callback) and \<open>Off\<close>, applied from left to right;
  a call that panics ends the run.
\<close>

datatype call = Join time Node | Leave Node

fun run :: "Kademlia \<Rightarrow> call list \<Rightarrow> Kademlia" where
  "run k [] = k"
| "run k (Join now n # cs) = (case On k now n None of Inr (e, k') \<Rightarrow> run k' cs | Inl f \<Rightarrow> k)"
| "run k (Leave n # cs) = (case Off k n of Inr k' \<Rightarrow> run k' cs | Inl f \<Rightarrow> k)"

definition peer :: "address \<Rightarrow> time \<Rightarrow> Node" where
  "peer a t = \<lparr>Addr = a, URL = [], LastActive = t\<rparr>"

definition base :: address where "base = [False, False, False, False]"
definition a0 :: address where "a0 = [True, False, False, False]"
definition a1 :: address where "a1 = [False, True, False, False]"
definition a2 :: address where "a2 = [False, False, True, False]"

definition table3 :: Kademlia where
  "table3 = run (New base NewDefaultKadParams) [Join 0 (peer a0 0), Join 0 (peer a1 0), Join 0 (peer a2 0)]"

subsection \<open>Counting peers\<close>

text \<open>
  The number of peers held in the buckets. A call of \<open>On\<close> replaces when it succeeds on a
  bucket that is full; a peer is absent for \<open>Off\<close> when its bucket holds no member with
  its address. \<open>history k r a\<close>: the table state \<open>k\<close> is reached from a fresh table by calls
  of \<open>On\<close> and \<open>Off\<close> of which \<open>r\<close> calls of \<open>On\<close> replaced and \<open>a\<close> calls of \<open>Off\<close> were
  for an absent peer; \<open>tally\<close> counts both along a run.
\<close>

definition population :: "Kademlia \<Rightarrow> int" where
  "population k = (\<Sum>b\<leftarrow>buckets k. int (length b))"

definition replaces :: "Kademlia \<Rightarrow> Node \<Rightarrow> join_error option \<Rightarrow> bool" where
  "replaces k node e \<longleftrightarrow>
     e = None \<and> \<not> length (buckets k ! proximityBin k (Addr node)) < BucketSize k"

definition absent :: "Kademlia \<Rightarrow> Node \<Rightarrow> bool" where
  "absent k node \<longleftrightarrow> Addr node \<notin> Addr ` set (buckets k ! proximityBin k (Addr node))"

inductive history :: "Kademlia \<Rightarrow> nat \<Rightarrow> nat \<Rightarrow> bool" where
  hist_New: "history (New a params) 0 0"
| hist_On: "history k r a \<Longrightarrow> On k now node cb = Inr (e, k') \<Longrightarrow>
            history k' (if replaces k node e then Suc r else r) a"
| hist_Off: "history k r a \<Longrightarrow> Off k node = Inr k' \<Longrightarrow>
            history k' r (if absent k node then Suc a else a)"

fun tally :: "Kademlia \<Rightarrow> call list \<Rightarrow> nat \<times> nat" where
  "tally k [] = (0, 0)"
| "tally k (Join now n # cs) =
     (case On k now n None of
        Inr (e, k') \<Rightarrow> (case tally k' cs of (r, a) \<Rightarrow> (if replaces k n e then Suc r else r, a))
      | Inl f \<Rightarrow> (0, 0))"
| "tally k (Leave n # cs) =
     (case Off k n of
        Inr k' \<Rightarrow> (case tally k' cs of (r, a) \<Rightarrow> (r, if absent k n then Suc a else a))
      | Inl f \<Rightarrow> (0, 0))"

subsection \<open>The course of the scan\<close>

text \<open>
  The two phases of the loop of \<open>FindClosest\<close> for a target in bin \<open>po\<close>: climbing from
  \<open>po\<close> to \<open>MaxProx\<close> with \<open>step = 1\<close>, and descending below \<open>po\<close> with \<open>step = -1\<close>;
  \<open>scan_measure\<close> bounds the iterations that remain.
\<close>

definition scan_phase :: "Kademlia \<Rightarrow> nat \<Rightarrow> scan \<Rightarrow> bool" where
  "scan_phase k po s \<longleftrightarrow>
     (s_step s = 1 \<and> int po \<le> s_index s \<and> s_index s \<le> int (MaxProx k)) \<or>
     (s_step s = - 1 \<and> - 1 \<le> s_index s \<and> s_index s < int po)"

definition scan_measure :: "Kademlia \<Rightarrow> nat \<Rightarrow> scan \<Rightarrow> nat" where
  "scan_measure k po s =
     (if s_step s = 1 then nat (int (MaxProx k) - s_index s) + po + 2 else nat (s_index s + 1))"

text \<open>
  The invariant of the loop: \<open>r.nodes\<close> is sorted by distance to the target and no longer
  than \<open>limit\<close>, \<open>n\<close> counts the members of the buckets read, and the buckets read are
  \<open>po, po + 1, \<dots>\<close> while climbing, then all of \<open>po, \<dots>, MaxProx\<close> followed by
  \<open>po - 1, po - 2, \<dots>\<close>. \<open>scan_post\<close> is what holds when the loop is left.
\<close>

definition scan_inv ::
  "(address \<Rightarrow> address \<Rightarrow> nat) \<Rightarrow> Kademlia \<Rightarrow> address \<Rightarrow> nat \<Rightarrow> int \<Rightarrow> scan \<Rightarrow> bool" where
  "scan_inv dist k tgt po limit s \<longleftrightarrow>
     sorted (map (\<lambda>p. dist tgt (Addr p)) (nodes (s_r s))) \<and>
     length (nodes (s_r s)) \<le> nat limit \<and> target (s_r s) = tgt \<and>
     s_n s = (\<Sum>i\<leftarrow>visited s. int (length (buckets k ! i))) \<and>
     (s_step s = 1 \<longrightarrow> visited s = [po..<nat (s_index s)]) \<and>
     (s_step s = - 1 \<longrightarrow> visited s = [po..<MaxProx k + 1] @ rev [nat (s_index s + 1)..<po]) \<and>
     \<not> stopped s"

definition scan_post ::
  "(address \<Rightarrow> address \<Rightarrow> nat) \<Rightarrow> Kademlia \<Rightarrow> address \<Rightarrow> int \<Rightarrow> scan \<Rightarrow> bool" where
  "scan_post dist k tgt mx s \<longleftrightarrow>
     sorted (map (\<lambda>p. dist tgt (Addr p)) (nodes (s_r s))) \<and>
     length (nodes (s_r s)) \<le> nat (if mx = 0 then maxPeers else mx) \<and>
     s_n s = (\<Sum>i\<leftarrow>visited s. int (length (buckets k ! i))) \<and>
     ((s_step s = 1 \<and>
       (\<exists>j. proximityBin k tgt \<le> j \<and> j \<le> MaxProx k \<and> visited s = [proximityBin k tgt..<j + 1])) \<or>
      (s_step s = - 1 \<and>
       (\<exists>j. j \<le> proximityBin k tgt \<and>
            visited s = [proximityBin k tgt..<MaxProx k + 1] @ rev [j..<proximityBin k tgt]))) \<and>
     (stopped s \<longrightarrow> (if mx = 0 then 1 else mx) \<le> s_n s \<and> (s_step s = - 1 \<or> mx = 0)) \<and>
     (\<not> stopped s \<longrightarrow> s_step s = - 1 \<and>
        visited s = [proximityBin k tgt..<MaxProx k + 1] @ rev [0..<proximityBin k tgt])"

subsection \<open>Example tables\<close>

text \<open>
  Five addresses of bin 0 of the base address. \<open>table_full\<close> has a full bucket 0 under
  the default parameters; in \<open>table_repl\<close> a fifth peer has joined after the four have been
  idle for more than \<open>MaxIdleInterval\<close>. In \<open>table_off\<close> a peer has joined and left.
\<close>

definition b1 :: address where "b1 = [True, False, False, False]"
definition b2 :: address where "b2 = [True, True, False, False]"
definition b3 :: address where "b3 = [True, False, True, False]"
definition b4 :: address where "b4 = [True, False, False, True]"
definition b5 :: address where "b5 = [True, True, True, False]"

definition table_full :: Kademlia where
  "table_full = run (New base NewDefaultKadParams)
     [Join 10 (peer b1 5), Join 10 (peer b2 3), Join 10 (peer b3 7), Join 10 (peer b4 4)]"

definition late :: time where "late = maxIdleInterval + 10"

definition table_repl :: Kademlia where
  "table_repl = run (New base NewDefaultKadParams)
     [Join 10 (peer b1 5), Join 10 (peer b2 3), Join 10 (peer b3 7), Join 10 (peer b4 4),
      Join late (peer b5 late)]"

definition table_off :: Kademlia where
  "table_off = run (New base NewDefaultKadParams) [Join 0 (peer a0 0), Leave (peer a0 0)]"

text \<open>An insertion callback that rejects every peer.\<close>

definition refuse :: "NodeRecord \<Rightarrow> Node \<Rightarrow> string option" where
  "refuse rcd node = Some ''unwanted''"

text \<open>A distance for the examples: the number whose binary digits are the bitwise xor.\<close>

definition xor_distance :: "address \<Rightarrow> address \<Rightarrow> nat" where
  "xor_distance t a = foldl (\<lambda>acc (x, y). 2 * acc + (if x \<noteq> y then 1 else 0)) 0 (zip t a)"

section \<open>Properties\<close>

subsection \<open>The branches of setProxLimit\<close>

lemma setProxLimit_below:
  "r < proxLimit k \<Longrightarrow> r < length (buckets k) \<Longrightarrow> buckets k ! r \<noteq> [] \<Longrightarrow>
   setProxLimit k r on = Inr k"
  by (simp add: setProxLimit_def)

lemma setProxLimit_on:
  "proxLimit k \<le> r \<Longrightarrow> proxLimit k < length (buckets k) \<Longrightarrow>
   setProxLimit k r True =
     contract (k\<lparr>proxSize := proxSize k + 1\<rparr>) (length (buckets k ! proxLimit k))"
  by (simp add: setProxLimit_def)

lemma setProxLimit_off_core:
  "proxLimit k \<le> r \<Longrightarrow> setProxLimit k r False = expand (k\<lparr>proxSize := proxSize k - 1\<rparr>) r"
  by (simp add: setProxLimit_def)

lemma setProxLimit_off_gap:
  "r < proxLimit k \<Longrightarrow> r < length (buckets k) \<Longrightarrow> buckets k ! r = [] \<Longrightarrow>
   setProxLimit k r False = expand k r"
  by (simp add: setProxLimit_def)

lemma core_size_step:
  "proxLimit k \<le> MaxProx k \<Longrightarrow>
   core_size k = int (length (buckets k ! proxLimit k)) + core_size (k\<lparr>proxLimit := Suc (proxLimit k)\<rparr>)"
  by (simp add: core_size_def sum.atLeast_Suc_atMost)

lemma contract_core_inv:
  "contract k cur = Inr k' \<Longrightarrow> core_inv k \<Longrightarrow> cur = length (buckets k ! proxLimit k) \<Longrightarrow>
   core_inv k'"
proof (induction k cur rule: contract.induct)
  case (1 k cur)
  show ?case
  proof (cases "proxSize k \<ge> int (ProxBinSize k) + int cur \<and> cur > 0")
    case False
    with "1.prems"(1) have "k' = k" by simp
    with "1.prems"(2) show ?thesis by simp
  next
    case True
    with "1.prems"(1) have lt: "proxLimit k + 1 < length (buckets k)"
      by (simp split: if_splits)
    let ?k1 = "k\<lparr>proxSize := proxSize k - int cur, proxLimit := proxLimit k + 1\<rparr>"
    from True lt "1.prems"(1)
    have run: "contract ?k1 (length (buckets k ! (proxLimit k + 1))) = Inr k'"
      by simp
    from "1.prems"(2) have len: "length (buckets k) = MaxProx k + 1"
      and ple: "proxLimit k \<le> MaxProx k"
      and ps: "proxSize k = core_size k"
      and gap: "\<forall>i < proxLimit k. buckets k ! i \<noteq> []"
      by (simp_all add: core_inv_def)
    from core_size_step[OF ple] "1.prems"(3)
    have cs: "core_size k = int cur + core_size (k\<lparr>proxLimit := Suc (proxLimit k)\<rparr>)" by simp
    have cs1: "core_size ?k1 = core_size (k\<lparr>proxLimit := Suc (proxLimit k)\<rparr>)"
      by (simp add: core_size_def)
    have gap1: "\<forall>i < proxLimit k + 1. buckets k ! i \<noteq> []"
    proof (intro allI impI)
      fix i assume "i < proxLimit k + 1"
      then have "i < proxLimit k \<or> i = proxLimit k" by arith
      then show "buckets k ! i \<noteq> []"
      proof
        assume "i < proxLimit k" with gap show ?thesis by simp
      next
        assume "i = proxLimit k"
        with True "1.prems"(3) show ?thesis by auto
      qed
    qed
    have "core_inv ?k1"
      unfolding core_inv_def
    proof (intro conjI)
      show "length (buckets ?k1) = MaxProx ?k1 + 1" using len by simp
      show "proxLimit ?k1 \<le> MaxProx ?k1" using lt len by simp
      show "proxSize ?k1 = core_size ?k1" using cs cs1 ps by simp
      show "\<forall>i<proxLimit ?k1. buckets ?k1 ! i \<noteq> []" using gap1 by simp
      show "0 < proxLimit ?k1 \<longrightarrow> int (ProxBinSize ?k1) \<le> proxSize ?k1" using True by simp
    qed
    moreover have "length (buckets k ! (proxLimit k + 1)) = length (buckets ?k1 ! proxLimit ?k1)"
      by simp
    ultimately show ?thesis
      using "1.IH"[OF True lt run] by blast
  qed
qed

lemma core_size_pred:
  "0 < proxLimit k \<Longrightarrow> proxLimit k \<le> MaxProx k \<Longrightarrow>
   core_size (k\<lparr>proxLimit := proxLimit k - 1\<rparr>) =
     int (length (buckets k ! (proxLimit k - 1))) + core_size k"
proof -
  assume a: "0 < proxLimit k" "proxLimit k \<le> MaxProx k"
  then have "proxLimit k - 1 \<le> MaxProx k" and "Suc (proxLimit k - 1) = proxLimit k" by arith+
  then show ?thesis
    by (simp add: core_size_def sum.atLeast_Suc_atMost)
qed

lemma expand_core_inv:
  "expand k r = Inr k' \<Longrightarrow> length (buckets k) = MaxProx k + 1 \<Longrightarrow> proxLimit k \<le> MaxProx k \<Longrightarrow>
   proxSize k = core_size k \<Longrightarrow> (\<forall>i < proxLimit k. i \<noteq> r \<longrightarrow> buckets k ! i \<noteq> []) \<Longrightarrow>
   core_inv k'"
proof (induction k r rule: expand.induct)
  case (1 k r)
  show ?case
  proof (cases "(proxSize k < int (ProxBinSize k) \<or> r < proxLimit k) \<and> proxLimit k > 0")
    case False
    with "1.prems"(1) have "k' = k" by simp
    moreover from False "1.prems"(5) have "\<forall>i < proxLimit k. buckets k ! i \<noteq> []" by auto
    moreover from False have "0 < proxLimit k \<longrightarrow> int (ProxBinSize k) \<le> proxSize k" by auto
    ultimately show ?thesis using "1.prems"(2,3,4) by (simp add: core_inv_def)
  next
    case True
    with "1.prems"(1) have lt: "proxLimit k - 1 < length (buckets k)"
      by (simp split: if_splits)
    let ?k1 = "k\<lparr>proxLimit := proxLimit k - 1,
                  proxSize := proxSize k + int (length (buckets k ! (proxLimit k - 1)))\<rparr>"
    from True lt "1.prems"(1) have run: "expand ?k1 r = Inr k'" by simp
    from True have pos: "0 < proxLimit k" by simp
    have cs1: "core_size ?k1 = core_size (k\<lparr>proxLimit := proxLimit k - 1\<rparr>)"
      by (simp add: core_size_def)
    have a: "length (buckets ?k1) = MaxProx ?k1 + 1" using "1.prems"(2) by simp
    have b: "proxLimit ?k1 \<le> MaxProx ?k1" using "1.prems"(3) by simp
    have c: "proxSize ?k1 = core_size ?k1"
      using cs1 core_size_pred[OF pos "1.prems"(3)] "1.prems"(4) by simp
    have d: "\<forall>i < proxLimit ?k1. i \<noteq> r \<longrightarrow> buckets ?k1 ! i \<noteq> []"
      using "1.prems"(5) by simp
    show ?thesis
      using "1.IH"[OF True lt run a b c d] .
  qed
qed

lemma sum_length_update:
  assumes "finite A" "r < length bs"
  shows "(\<Sum>i\<in>A. int (length (bs[r := b] ! i))) =
         (\<Sum>i\<in>A. int (length (bs ! i))) + (if r \<in> A then int (length b) - int (length (bs ! r)) else 0)"
proof (cases "r \<in> A")
  case False
  then have "\<And>x. x \<in> A \<Longrightarrow> r \<noteq> x" by blast
  then have "(\<Sum>i\<in>A. int (length (bs[r := b] ! i))) = (\<Sum>i\<in>A. int (length (bs ! i)))"
    by (intro sum.cong refl) simp
  with False show ?thesis by simp
next
  case True
  have rest: "(\<Sum>i\<in>A - {r}. int (length (bs[r := b] ! i))) = (\<Sum>i\<in>A - {r}. int (length (bs ! i)))"
    by (intro sum.cong) auto
  have "(\<Sum>i\<in>A. int (length (bs[r := b] ! i))) =
        int (length (bs[r := b] ! r)) + (\<Sum>i\<in>A - {r}. int (length (bs[r := b] ! i)))"
    using assms(1) True by (rule sum.remove)
  moreover have "(\<Sum>i\<in>A. int (length (bs ! i))) =
        int (length (bs ! r)) + (\<Sum>i\<in>A - {r}. int (length (bs ! i)))"
    using assms(1) True by (rule sum.remove)
  ultimately show ?thesis using rest True assms(2) by simp
qed

lemma core_size_update:
  "r < length (buckets k) \<Longrightarrow>
   core_size (k\<lparr>buckets := (buckets k)[r := b]\<rparr>) =
     core_size k + (if proxLimit k \<le> r \<and> r \<le> MaxProx k
                    then int (length b) - int (length (buckets k ! r)) else 0)"
  by (simp add: core_size_def sum_length_update)

lemma setProxLimit_on_core_inv:
  assumes inv: "core_inv k" and r: "r \<le> MaxProx k"
    and run: "setProxLimit (k\<lparr>buckets := (buckets k)[r := buckets k ! r @ [n]]\<rparr>) r True = Inr k'"
  shows "core_inv k'"
proof -
  let ?k2 = "k\<lparr>buckets := (buckets k)[r := buckets k ! r @ [n]]\<rparr>"
  from inv have len: "length (buckets k) = MaxProx k + 1"
    and ple: "proxLimit k \<le> MaxProx k"
    and ps: "proxSize k = core_size k"
    and gap: "\<forall>i < proxLimit k. buckets k ! i \<noteq> []"
    and big: "0 < proxLimit k \<longrightarrow> int (ProxBinSize k) \<le> proxSize k"
    unfolding core_inv_def by blast+
  from r len have rl: "r < length (buckets k)" by simp
  have gap2: "\<forall>i < proxLimit k. buckets ?k2 ! i \<noteq> []"
    using gap rl by (simp add: nth_list_update)
  show ?thesis
  proof (cases "r < proxLimit k")
    case True
    have "setProxLimit ?k2 r True = Inr ?k2"
      by (rule setProxLimit_below) (use True rl in simp_all)
    with run have k': "k' = ?k2" by simp
    have "core_size ?k2 = core_size k"
      using core_size_update[OF rl, of "buckets k ! r @ [n]"] True by simp
    then show ?thesis
      unfolding k' core_inv_def using len ple ps gap2 big by simp
  next
    case False
    then have le: "proxLimit k \<le> r" by simp
    have "setProxLimit ?k2 r True =
            contract (?k2\<lparr>proxSize := proxSize ?k2 + 1\<rparr>) (length (buckets ?k2 ! proxLimit ?k2))"
      by (rule setProxLimit_on) (use le ple len in simp_all)
    with run have c: "contract (?k2\<lparr>proxSize := proxSize ?k2 + 1\<rparr>)
                        (length (buckets ?k2 ! proxLimit ?k2)) = Inr k'" by simp
    let ?k3 = "?k2\<lparr>proxSize := proxSize ?k2 + 1\<rparr>"
    have cs: "core_size ?k3 = core_size k + 1"
    proof -
      have "core_size ?k3 = core_size ?k2" by (simp add: core_size_def)
      also have "\<dots> = core_size k + 1"
        using core_size_update[OF rl, of "buckets k ! r @ [n]"] le r by simp
      finally show ?thesis .
    qed
    have "core_inv ?k3"
      unfolding core_inv_def
    proof (intro conjI)
      show "length (buckets ?k3) = MaxProx ?k3 + 1" using len by simp
      show "proxLimit ?k3 \<le> MaxProx ?k3" using ple by simp
      show "proxSize ?k3 = core_size ?k3" using cs ps by simp
      show "\<forall>i<proxLimit ?k3. buckets ?k3 ! i \<noteq> []" using gap2 by simp
      show "0 < proxLimit ?k3 \<longrightarrow> int (ProxBinSize ?k3) \<le> proxSize ?k3" using big by auto
    qed
    moreover have "length (buckets ?k2 ! proxLimit ?k2) = length (buckets ?k3 ! proxLimit ?k3)"
      by simp
    ultimately show ?thesis using contract_core_inv[OF c] by simp
  qed
qed

lemma setProxLimit_off_core_inv:
  assumes inv: "core_inv k" and r: "r \<le> MaxProx k"
    and b: "Suc (length b) = length (buckets k ! r)"
    and run: "setProxLimit (k\<lparr>buckets := (buckets k)[r := b]\<rparr>) r False = Inr k'"
  shows "core_inv k'"
proof -
  let ?k2 = "k\<lparr>buckets := (buckets k)[r := b]\<rparr>"
  from inv have len: "length (buckets k) = MaxProx k + 1"
    and ple: "proxLimit k \<le> MaxProx k"
    and ps: "proxSize k = core_size k"
    and gap: "\<forall>i < proxLimit k. buckets k ! i \<noteq> []"
    and big: "0 < proxLimit k \<longrightarrow> int (ProxBinSize k) \<le> proxSize k"
    unfolding core_inv_def by blast+
  from r len have rl: "r < length (buckets k)" by simp
  have gap2: "\<forall>i < proxLimit k. i \<noteq> r \<longrightarrow> buckets ?k2 ! i \<noteq> []"
    using gap by (simp add: nth_list_update)
  have br: "buckets ?k2 ! r = b" using rl by simp
  show ?thesis
  proof (cases "r < proxLimit k")
    case True
    have cs: "core_size ?k2 = core_size k"
      using core_size_update[OF rl, of b] True by simp
    show ?thesis
    proof (cases "b = []")
      case False
      have "setProxLimit ?k2 r False = Inr ?k2"
        by (rule setProxLimit_below) (use True rl False in simp_all)
      with run have k': "k' = ?k2" by simp
      have "\<forall>i < proxLimit k. buckets ?k2 ! i \<noteq> []"
        using gap False rl by (simp add: nth_list_update)
      then show ?thesis
        unfolding k' core_inv_def using len ple ps big cs by simp
    next
      case e: True
      have "setProxLimit ?k2 r False = expand ?k2 r"
        by (rule setProxLimit_off_gap) (use True rl e in simp_all)
      with run have x: "expand ?k2 r = Inr k'" by simp
      show ?thesis
        by (rule expand_core_inv[OF x]) (use len ple ps cs gap2 in simp_all)
    qed
  next
    case False
    then have le: "proxLimit k \<le> r" by simp
    let ?k3 = "?k2\<lparr>proxSize := proxSize ?k2 - 1\<rparr>"
    have "setProxLimit ?k2 r False = expand ?k3 r"
      by (rule setProxLimit_off_core) (use le in simp)
    with run have x: "expand ?k3 r = Inr k'" by simp
    have "core_size ?k3 = core_size ?k2" by (simp add: core_size_def)
    also have "\<dots> = core_size k - 1"
      using core_size_update[OF rl, of b] le r b by simp
    finally have cs: "core_size ?k3 = core_size k - 1" .
    show ?thesis
      by (rule expand_core_inv[OF x]) (use len ple ps cs gap2 in simp_all)
  qed
qed

lemma core_inv_cong:
  assumes "MaxProx k' = MaxProx k" "ProxBinSize k' = ProxBinSize k"
    "proxLimit k' = proxLimit k" "proxSize k' = proxSize k"
    "map length (buckets k') = map length (buckets k)"
  shows "core_inv k' = core_inv k"
proof -
  from assms(5) have len: "length (buckets k') = length (buckets k)"
    by (metis length_map)
  have nth: "length (buckets k' ! i) = length (buckets k ! i)" if "i < length (buckets k)" for i
  proof -
    from that len have "map length (buckets k') ! i = length (buckets k' ! i)"
      and "map length (buckets k) ! i = length (buckets k ! i)" by simp_all
    with assms(5) show ?thesis by simp
  qed
  show ?thesis
  proof (cases "length (buckets k) = MaxProx k + 1")
    case False
    with len assms(1) show ?thesis by (simp add: core_inv_def)
  next
    case True
    have cs: "core_size k' = core_size k"
      unfolding core_size_def assms(1) assms(3)
      by (intro sum.cong refl arg_cong[where f=int] nth) (use True in simp)
    have ne: "(buckets k' ! i \<noteq> []) = (buckets k ! i \<noteq> [])" if "i < length (buckets k)" for i
      using nth[OF that] by (metis length_0_conv)
    have gap: "proxLimit k \<le> MaxProx k \<Longrightarrow>
        (\<forall>i < proxLimit k. buckets k' ! i \<noteq> []) = (\<forall>i < proxLimit k. buckets k ! i \<noteq> [])"
      using ne True by auto
    show ?thesis
      unfolding core_inv_def assms(1-4) cs len using gap by auto
  qed
qed

subsection \<open>The outcomes of On and Off\<close>

lemma On_cases [consumes 1, case_names Rejected Appended Full Replaced]:
  assumes run: "On k now node cb = Inr (e, k')"
  obtains
    (Rejected) rcd d err where
      "findOrCreate (db k) (proximityBin k (Addr node)) (Addr node) (URL node) = (rcd, d)"
      "(case cb of None \<Rightarrow> None | Some f \<Rightarrow> f rcd node) = Some err"
      "e = Some (CallbackError err)" "k' = k\<lparr>db := d\<rparr>"
  | (Appended) rcd d k3 where
      "findOrCreate (db k) (proximityBin k (Addr node)) (Addr node) (URL node) = (rcd, d)"
      "accepts cb rcd node"
      "proximityBin k (Addr node) < length (buckets k)"
      "length (buckets k ! proximityBin k (Addr node)) < BucketSize k"
      "setProxLimit (k\<lparr>db := d, buckets := (buckets k)[proximityBin k (Addr node) :=
           buckets k ! proximityBin k (Addr node) @ [node]]\<rparr>) (proximityBin k (Addr node)) True = Inr k3"
      "e = None"
      "k' = k3\<lparr>db := set_record_node (db k3) (Addr node) rcd (Some node), count := count k3 + 1\<rparr>"
  | (Full) rcd d idle pos where
      "findOrCreate (db k) (proximityBin k (Addr node)) (Addr node) (URL node) = (rcd, d)"
      "accepts cb rcd node"
      "proximityBin k (Addr node) < length (buckets k)"
      "\<not> length (buckets k ! proximityBin k (Addr node)) < BucketSize k"
      "idlest now (buckets k ! proximityBin k (Addr node)) 0 (MaxIdleInterval k, 0, None) = (idle, pos, None)"
      "e = Some BucketFull" "k' = k\<lparr>db := d\<rparr>"
  | (Replaced) rcd d idle pos replaced where
      "findOrCreate (db k) (proximityBin k (Addr node)) (Addr node) (URL node) = (rcd, d)"
      "accepts cb rcd node"
      "proximityBin k (Addr node) < length (buckets k)"
      "\<not> length (buckets k ! proximityBin k (Addr node)) < BucketSize k"
      "idlest now (buckets k ! proximityBin k (Addr node)) 0 (MaxIdleInterval k, 0, None) = (idle, pos, Some replaced)"
      "e = None"
      "k' = k\<lparr>db := set_record_node d (Addr node) rcd (Some node),
                dropped := dropped k @ [replaced],
                buckets := (buckets k)[proximityBin k (Addr node) :=
                   (buckets k ! proximityBin k (Addr node))[pos := node]],
                count := count k + 1\<rparr>"
proof -
  define idx where "idx = proximityBin k (Addr node)"
  obtain rcd d where fc: "findOrCreate (db k) idx (Addr node) (URL node) = (rcd, d)"
    by (cases "findOrCreate (db k) idx (Addr node) (URL node)")
  have unfold: "On k now node cb =
      (case (case cb of None \<Rightarrow> None | Some f \<Rightarrow> f rcd node) of
         Some err \<Rightarrow> Inr (Some (CallbackError err), k\<lparr>db := d\<rparr>)
       | None \<Rightarrow> On_insert (k\<lparr>db := d\<rparr>) now node idx rcd)"
    using fc unfolding idx_def by (simp add: On_def Let_def)
  show thesis
  proof (cases "case cb of None \<Rightarrow> None | Some f \<Rightarrow> f rcd node")
    case (Some err)
    with unfold run have "e = Some (CallbackError err)" "k' = k\<lparr>db := d\<rparr>" by simp_all
    with fc Some show thesis unfolding idx_def by (rule Rejected)
  next
    case None
    then have acc: "accepts cb rcd node" by (simp add: accepts_def)
    from None unfold run have ins: "On_insert (k\<lparr>db := d\<rparr>) now node idx rcd = Inr (e, k')"
      by simp
    have lt: "idx < length (buckets k)"
    proof (rule ccontr)
      assume "\<not> idx < length (buckets k)"
      then have "On_insert (k\<lparr>db := d\<rparr>) now node idx rcd = Inl IndexOutOfRange"
        by (simp add: On_insert_def)
      with ins show False by simp
    qed
    show thesis
    proof (cases "length (buckets k ! idx) < BucketSize k")
      case True
      let ?k2 = "k\<lparr>db := d, buckets := (buckets k)[idx := buckets k ! idx @ [node]]\<rparr>"
      from lt True have eq: "On_insert (k\<lparr>db := d\<rparr>) now node idx rcd =
          (case setProxLimit ?k2 idx True of
             Inl f \<Rightarrow> Inl f
           | Inr k3 \<Rightarrow> Inr (None, k3\<lparr>db := set_record_node (db k3) (Addr node) rcd (Some node),
                                       count := count k3 + 1\<rparr>))"
        by (simp add: On_insert_def Let_def)
      show thesis
      proof (cases "setProxLimit ?k2 idx True")
        case (Inl f)
        with eq ins show thesis by simp
      next
        case (Inr k3)
        with eq ins have "e = None"
          "k' = k3\<lparr>db := set_record_node (db k3) (Addr node) rcd (Some node), count := count k3 + 1\<rparr>"
          by simp_all
        with fc acc lt True Inr show thesis unfolding idx_def by (rule Appended)
      qed
    next
      case False
      obtain idle pos rep where sc:
        "idlest now (buckets k ! idx) 0 (MaxIdleInterval k, 0, None) = (idle, pos, rep)"
        by (cases "idlest now (buckets k ! idx) 0 (MaxIdleInterval k, 0, None)")
      show thesis
      proof (cases rep)
        case None
        with lt False sc have "On_insert (k\<lparr>db := d\<rparr>) now node idx rcd =
            Inr (Some BucketFull, k\<lparr>db := d\<rparr>)"
          by (simp add: On_insert_def Let_def)
        with ins have "e = Some BucketFull" "k' = k\<lparr>db := d\<rparr>" by simp_all
        with fc acc lt False sc[unfolded None] show thesis unfolding idx_def by (rule Full)
      next
        case (Some replaced)
        with lt False sc have "On_insert (k\<lparr>db := d\<rparr>) now node idx rcd =
            Inr (None, k\<lparr>db := set_record_node d (Addr node) rcd (Some node),
                dropped := dropped k @ [replaced],
                buckets := (buckets k)[idx := (buckets k ! idx)[pos := node]],
                count := count k + 1\<rparr>)"
          by (simp add: On_insert_def Let_def)
        with ins have "e = None" "k' = k\<lparr>db := set_record_node d (Addr node) rcd (Some node),
                dropped := dropped k @ [replaced],
                buckets := (buckets k)[idx := (buckets k ! idx)[pos := node]],
                count := count k + 1\<rparr>" by simp_all
        with fc acc lt False sc[unfolded Some] show thesis unfolding idx_def by (rule Replaced)
      qed
    qed
  qed
qed

lemma find_pos_Some:
  "find_pos a ps i0 = Some i \<Longrightarrow> i0 \<le> i \<and> i - i0 < length ps \<and> Addr (ps ! (i - i0)) = a"
proof (induction ps arbitrary: i0)
  case Nil
  then show ?case by simp
next
  case (Cons p ps)
  show ?case
  proof (cases "a = Addr p")
    case True
    with Cons.prems show ?thesis by simp
  next
    case False
    with Cons.prems have "find_pos a ps (i0 + 1) = Some i" by simp
    from Cons.IH[OF this] have "i0 + 1 \<le> i" "i - (i0 + 1) < length ps"
      "Addr (ps ! (i - (i0 + 1))) = a" by simp_all
    moreover from \<open>i0 + 1 \<le> i\<close> have "i - i0 = Suc (i - (i0 + 1))" by arith
    ultimately show ?thesis by simp
  qed
qed

lemma find_pos_None: "find_pos a ps i0 = None \<longleftrightarrow> a \<notin> Addr ` set ps"
  by (induction ps arbitrary: i0) auto

lemma Off_cases [consumes 1, case_names Absent Removed]:
  assumes run: "Off k node = Inr k'"
  obtains
    (Absent) rcd where
      "proximityBin k (Addr node) < length (buckets k)"
      "find_pos (Addr node) (buckets k ! proximityBin k (Addr node)) 0 = None"
      "db_index (db k) (Addr node) = Some rcd"
      "k' = k\<lparr>db := set_record_node (db k) (Addr node) rcd None, count := count k - 1\<rparr>"
  | (Removed) i k3 rcd where
      "proximityBin k (Addr node) < length (buckets k)"
      "find_pos (Addr node) (buckets k ! proximityBin k (Addr node)) 0 = Some i"
      "setProxLimit (k\<lparr>buckets := (buckets k)[proximityBin k (Addr node) :=
           take i (buckets k ! proximityBin k (Addr node)) @
           drop (i + 1) (buckets k ! proximityBin k (Addr node))]\<rparr>)
         (proximityBin k (Addr node)) False = Inr k3"
      "db_index (db k3) (Addr node) = Some rcd"
      "k' = k3\<lparr>db := set_record_node (db k3) (Addr node) rcd None, count := count k3 - 1\<rparr>"
proof -
  define idx where "idx = proximityBin k (Addr node)"
  define bucket where "bucket = buckets k ! idx"
  have lt: "idx < length (buckets k)"
  proof (rule ccontr)
    assume "\<not> idx < length (buckets k)"
    then have "Off k node = Inl IndexOutOfRange"
      unfolding idx_def by (simp add: Off_def Let_def)
    with run show False by simp
  qed
  define mid where "mid = (case find_pos (Addr node) bucket 0 of
       None \<Rightarrow> Inr k
     | Some i \<Rightarrow> setProxLimit (k\<lparr>buckets := (buckets k)[idx := take i bucket @ drop (i + 1) bucket]\<rparr>)
                   idx False)"
  have unfold: "Off k node =
      (case mid of
         Inl f \<Rightarrow> Inl f
       | Inr k3 \<Rightarrow>
           (case db_index (db k3) (Addr node) of
              None \<Rightarrow> Inl NilDereference
            | Some rcd \<Rightarrow> Inr (k3\<lparr>db := set_record_node (db k3) (Addr node) rcd None,
                                  count := count k3 - 1\<rparr>)))"
    using lt unfolding mid_def bucket_def idx_def by (simp add: Off_def Let_def)
  show thesis
  proof (cases mid)
    case (Inl f)
    with unfold run show thesis by simp
  next
    case (Inr k3)
    show thesis
    proof (cases "db_index (db k3) (Addr node)")
      case None
      with Inr unfold run show thesis by simp
    next
      case (Some rcd)
      with Inr unfold run
      have k': "k' = k3\<lparr>db := set_record_node (db k3) (Addr node) rcd None, count := count k3 - 1\<rparr>"
        by simp
      show thesis
      proof (cases "find_pos (Addr node) bucket 0")
        case None
        with Inr have "k3 = k" by (simp add: mid_def)
        with lt None Some k' show thesis
          unfolding bucket_def idx_def by (intro Absent[of rcd]) simp_all
      next
        case (Some i)
        with Inr have "setProxLimit (k\<lparr>buckets := (buckets k)[idx := take i bucket @ drop (i + 1) bucket]\<rparr>)
                   idx False = Inr k3" by (simp add: mid_def)
        with lt Some \<open>db_index (db k3) (Addr node) = Some rcd\<close> k' show thesis
          unfolding bucket_def idx_def by (intro Removed[of i k3 rcd]) simp_all
      qed
    qed
  qed
qed

lemma map_length_replace: "map length (bs[i := (bs ! i)[p := n]]) = map length bs"
proof (cases "i < length bs")
  case True
  then show ?thesis by (auto simp: list_eq_iff_nth_eq nth_list_update)
next
  case False
  then have "bs[i := (bs ! i)[p := n]] = bs" by (intro list_update_beyond) simp
  then show ?thesis by simp
qed

lemma proximityBin_le: "proximityBin k a \<le> MaxProx k"
  by (simp add: proximityBin_def Let_def)

lemma On_core_inv:
  assumes run: "On k now node cb = Inr (e, k')" and inv: "core_inv k"
  shows "core_inv k'"
  using run
proof (cases rule: On_cases)
  case (Rejected rcd d err)
  have "core_inv k' = core_inv k" by (rule core_inv_cong) (simp_all add: Rejected)
  with inv show ?thesis by simp
next
  case (Appended rcd d k3)
  let ?idx = "proximityBin k (Addr node)"
  have "core_inv (k\<lparr>db := d\<rparr>) = core_inv k" by (rule core_inv_cong) simp_all
  with inv have i1: "core_inv (k\<lparr>db := d\<rparr>)" by simp
  have "core_inv k3"
    by (rule setProxLimit_on_core_inv[OF i1, of ?idx node])
       (use Appended(5) in \<open>simp_all add: proximityBin_le\<close>)
  moreover have "core_inv k' = core_inv k3" by (rule core_inv_cong) (simp_all add: Appended)
  ultimately show ?thesis by simp
next
  case (Full rcd d idle pos)
  have "core_inv k' = core_inv k" by (rule core_inv_cong) (simp_all add: Full)
  with inv show ?thesis by simp
next
  case (Replaced rcd d idle pos replaced)
  have "core_inv k' = core_inv k"
    by (rule core_inv_cong) (simp_all add: Replaced map_length_replace)
  with inv show ?thesis by simp
qed

lemma Off_core_inv:
  assumes run: "Off k node = Inr k'" and inv: "core_inv k"
  shows "core_inv k'"
  using run
proof (cases rule: Off_cases)
  case (Absent rcd)
  have "core_inv k' = core_inv k" by (rule core_inv_cong) (simp_all add: Absent)
  with inv show ?thesis by simp
next
  case (Removed i k3 rcd)
  let ?idx = "proximityBin k (Addr node)"
  let ?b = "buckets k ! ?idx"
  from find_pos_Some[OF Removed(2)] have "i < length ?b" by simp
  then have "Suc (length (take i ?b @ drop (i + 1) ?b)) = length ?b" by simp
  then have "core_inv k3"
    by (rule setProxLimit_off_core_inv[OF inv proximityBin_le _ Removed(3)])
  moreover have "core_inv k' = core_inv k3" by (rule core_inv_cong) (simp_all add: Removed)
  ultimately show ?thesis by simp
qed

lemma New_core_inv: "core_inv (New a params)"
proof -
  have nth: "replicate (MaxProx params + 1) ([]::Node list) ! i = []" if "i \<le> MaxProx params" for i
    by (rule nth_replicate) (use that in simp)
  have "core_size (New a params) = (\<Sum>i = 0..MaxProx params.
           int (length (replicate (MaxProx params + 1) ([]::Node list) ! i)))"
    by (simp add: core_size_def New_def)
  also have "\<dots> = 0"
    by (rule sum.neutral) (simp add: nth del: replicate.simps)
  finally have "core_size (New a params) = 0" .
  then show ?thesis by (simp add: core_inv_def New_def)
qed

lemma reachable_core_inv: "reachable k \<Longrightarrow> core_inv k"
proof (induction rule: reachable.induct)
  case (reach_New a params)
  show ?case by (rule New_core_inv)
next
  case (reach_On k now node cb err k')
  then show ?case using On_core_inv by blast
next
  case (reach_Off k node k')
  then show ?case using Off_core_inv by blast
qed

lemma reachable_run: "reachable k \<Longrightarrow> reachable (run k cs)"
proof (induction k cs rule: run.induct)
  case (1 k)
  then show ?case by simp
next
  case (2 k now n cs)
  show ?case
  proof (cases "On k now n None")
    case (Inl f)
    with 2 show ?thesis by simp
  next
    case (Inr p)
    obtain e k' where p: "p = (e, k')" by (cases p)
    with Inr "2.prems" have "reachable k'" by (auto intro: reach_On)
    with 2 Inr p show ?thesis by simp
  qed
next
  case (3 k n cs)
  show ?case
  proof (cases "Off k n")
    case (Inl f)
    with 3 show ?thesis by simp
  next
    case (Inr k')
    with "3.prems" have "reachable k'" by (auto intro: reach_Off)
    with 3 Inr show ?thesis by simp
  qed
qed

subsection \<open>What setProxLimit changes\<close>

lemma contract_shape:
  "contract k cur = Inr k' \<Longrightarrow> \<exists>pl ps. k' = k\<lparr>proxLimit := pl, proxSize := ps\<rparr>"
proof (induction k cur rule: contract.induct)
  case (1 k cur)
  show ?case
  proof (cases "proxSize k \<ge> int (ProxBinSize k) + int cur \<and> cur > 0")
    case False
    with "1.prems" have "k' = k" by simp
    then have "k' = k\<lparr>proxLimit := proxLimit k, proxSize := proxSize k\<rparr>" by simp
    then show ?thesis by blast
  next
    case True
    with "1.prems" have lt: "proxLimit k + 1 < length (buckets k)"
      by (simp split: if_splits)
    let ?k1 = "k\<lparr>proxSize := proxSize k - int cur, proxLimit := proxLimit k + 1\<rparr>"
    from True lt "1.prems" have "contract ?k1 (length (buckets k ! (proxLimit k + 1))) = Inr k'"
      by simp
    from "1.IH"[OF True lt this] obtain pl ps where "k' = ?k1\<lparr>proxLimit := pl, proxSize := ps\<rparr>"
      by blast
    then have "k' = k\<lparr>proxLimit := pl, proxSize := ps\<rparr>" by simp
    then show ?thesis by blast
  qed
qed

lemma expand_shape:
  "expand k r = Inr k' \<Longrightarrow> \<exists>pl ps. k' = k\<lparr>proxLimit := pl, proxSize := ps\<rparr>"
proof (induction k r rule: expand.induct)
  case (1 k r)
  show ?case
  proof (cases "(proxSize k < int (ProxBinSize k) \<or> r < proxLimit k) \<and> proxLimit k > 0")
    case False
    with "1.prems" have "k' = k" by simp
    then have "k' = k\<lparr>proxLimit := proxLimit k, proxSize := proxSize k\<rparr>" by simp
    then show ?thesis by blast
  next
    case True
    with "1.prems" have lt: "proxLimit k - 1 < length (buckets k)"
      by (simp split: if_splits)
    let ?k1 = "k\<lparr>proxLimit := proxLimit k - 1,
                  proxSize := proxSize k + int (length (buckets k ! (proxLimit k - 1)))\<rparr>"
    from True lt "1.prems" have "expand ?k1 r = Inr k'"
      by simp
    from "1.IH"[OF True lt this] obtain pl ps where "k' = ?k1\<lparr>proxLimit := pl, proxSize := ps\<rparr>"
      by blast
    then have "k' = k\<lparr>proxLimit := pl, proxSize := ps\<rparr>" by simp
    then show ?thesis by blast
  qed
qed

declare contract.simps [simp del] expand.simps [simp del]

lemma setProxLimit_on_gen:
  assumes "\<not> (r < proxLimit k \<and> \<not> r < length (buckets k))"
    and "\<not> (r < proxLimit k \<and> length (buckets k ! r) > 0)"
  shows "setProxLimit k r True =
     (if proxLimit k < length (buckets k)
      then contract (k\<lparr>proxSize := proxSize k + 1\<rparr>) (length (buckets k ! proxLimit k))
      else Inl IndexOutOfRange)"
  unfolding setProxLimit_def using assms by (simp only: if_False if_True simp_thms)

lemma setProxLimit_off_gen:
  assumes "\<not> (r < proxLimit k \<and> \<not> r < length (buckets k))"
    and "\<not> (r < proxLimit k \<and> length (buckets k ! r) > 0)"
  shows "setProxLimit k r False =
     expand (if r \<ge> proxLimit k then k\<lparr>proxSize := proxSize k - 1\<rparr> else k) r"
  unfolding setProxLimit_def using assms by (simp only: if_False if_True simp_thms)

lemma setProxLimit_shape:
  assumes run: "setProxLimit k r on = Inr k'"
  shows "\<exists>pl ps. k' = k\<lparr>proxLimit := pl, proxSize := ps\<rparr>"
proof -
  have same: "\<exists>pl ps. k' = k\<lparr>proxLimit := pl, proxSize := ps\<rparr>" if "Inr k = Inr k'"
  proof -
    from that have "k' = k" by simp
    then have "k' = k\<lparr>proxLimit := proxLimit k, proxSize := proxSize k\<rparr>" by simp
    then show ?thesis by blast
  qed
  have con: "\<exists>pl ps. k' = k\<lparr>proxLimit := pl, proxSize := ps\<rparr>"
    if "contract (k\<lparr>proxSize := proxSize k + 1\<rparr>) c = Inr k'" for c
  proof -
    from contract_shape[OF that] obtain pl ps where
      "k' = k\<lparr>proxSize := proxSize k + 1\<rparr>\<lparr>proxLimit := pl, proxSize := ps\<rparr>" by blast
    then have "k' = k\<lparr>proxLimit := pl, proxSize := ps\<rparr>" by simp
    then show ?thesis by blast
  qed
  have ex1: "\<exists>pl ps. k' = k\<lparr>proxLimit := pl, proxSize := ps\<rparr>"
    if "expand (k\<lparr>proxSize := proxSize k - 1\<rparr>) r = Inr k'"
  proof -
    from expand_shape[OF that] obtain pl ps where
      "k' = k\<lparr>proxSize := proxSize k - 1\<rparr>\<lparr>proxLimit := pl, proxSize := ps\<rparr>" by blast
    then have "k' = k\<lparr>proxLimit := pl, proxSize := ps\<rparr>" by simp
    then show ?thesis by blast
  qed
  show ?thesis
  proof (cases "r < proxLimit k \<and> \<not> r < length (buckets k)")
    case True
    then have "setProxLimit k r on = Inl IndexOutOfRange"
      unfolding setProxLimit_def by (simp only: if_True simp_thms)
    with run show ?thesis by simp
  next
    case inrange: False
    show ?thesis
    proof (cases "r < proxLimit k \<and> length (buckets k ! r) > 0")
      case True
      with inrange have "setProxLimit k r on = Inr k"
        unfolding setProxLimit_def by (simp only: if_True if_False simp_thms)
      with run have "Inr k = Inr k'" by simp
      then show ?thesis by (rule same)
    next
      case nb: False
      show ?thesis
      proof (cases on)
        case True
        with run have r1: "setProxLimit k r True = Inr k'" by simp
        show ?thesis
        proof (cases "proxLimit k < length (buckets k)")
          case False
          with r1 setProxLimit_on_gen[OF inrange nb] show ?thesis by simp
        next
          case True
          with r1 setProxLimit_on_gen[OF inrange nb]
          have "contract (k\<lparr>proxSize := proxSize k + 1\<rparr>)
               (length (buckets k ! proxLimit k)) = Inr k'" by simp
          then show ?thesis by (rule con)
        qed
      next
        case False
        with run have r1: "setProxLimit k r False = Inr k'" by simp
        show ?thesis
        proof (cases "r \<ge> proxLimit k")
          case True
          with r1 setProxLimit_off_gen[OF inrange nb]
          have "expand (k\<lparr>proxSize := proxSize k - 1\<rparr>) r = Inr k'" by simp
          then show ?thesis by (rule ex1)
        next
          case False
          with r1 setProxLimit_off_gen[OF inrange nb]
          have "expand k r = Inr k'" by simp
          then show ?thesis by (rule expand_shape)
        qed
      qed
    qed
  qed
qed

subsection \<open>The field count and the population of the buckets\<close>

lemma sum_list_int_update:
  "i < length xs \<Longrightarrow> sum_list (xs[i := (x::int)]) = sum_list xs + x - xs ! i"
  by (induction xs arbitrary: i) (auto split: nat.splits)

lemma population_update:
  "i < length (buckets k) \<Longrightarrow>
   population (k\<lparr>buckets := (buckets k)[i := b]\<rparr>) =
     population k + int (length b) - int (length (buckets k ! i))"
proof -
  assume i: "i < length (buckets k)"
  have "population (k\<lparr>buckets := (buckets k)[i := b]\<rparr>) =
        sum_list ((map (\<lambda>b. int (length b)) (buckets k))[i := int (length b)])"
    by (simp add: population_def map_update)
  also have "\<dots> = sum_list (map (\<lambda>b. int (length b)) (buckets k)) + int (length b)
        - (map (\<lambda>b. int (length b)) (buckets k)) ! i"
    by (rule sum_list_int_update) (use i in simp)
  finally show ?thesis using i by (simp add: population_def)
qed

lemma population_shape [simp]:
  "population (k\<lparr>proxLimit := pl, proxSize := ps\<rparr>) = population k"
  "population (k\<lparr>db := d\<rparr>) = population k"
  "population (k\<lparr>count := c\<rparr>) = population k"
  "population (k\<lparr>dropped := ds\<rparr>) = population k"
  by (simp_all add: population_def)

lemma On_count:
  assumes run: "On k now node cb = Inr (e, k')"
  shows "count k' - population k' = count k - population k + (if replaces k node e then 1 else 0)"
  using run
proof (cases rule: On_cases)
  case (Rejected rcd d err)
  then show ?thesis by (simp add: replaces_def)
next
  case (Appended rcd d k3)
  let ?idx = "proximityBin k (Addr node)"
  let ?k2 = "k\<lparr>db := d, buckets := (buckets k)[?idx := buckets k ! ?idx @ [node]]\<rparr>"
  from setProxLimit_shape[OF Appended(5)] obtain pl ps where
    k3: "k3 = ?k2\<lparr>proxLimit := pl, proxSize := ps\<rparr>" by blast
  have "population k3 = population (k\<lparr>buckets := (buckets k)[?idx := buckets k ! ?idx @ [node]]\<rparr>)"
    unfolding k3 by (simp add: population_def)
  also have "\<dots> = population k + 1"
    using population_update[OF Appended(3), of "buckets k ! ?idx @ [node]"] by simp
  finally have "population k3 = population k + 1" .
  moreover have "count k3 = count k" unfolding k3 by simp
  ultimately show ?thesis using Appended(4,6,7) by (simp add: replaces_def)
next
  case (Full rcd d idle pos)
  then show ?thesis by (simp add: replaces_def)
next
  case (Replaced rcd d idle pos replaced)
  let ?idx = "proximityBin k (Addr node)"
  have "population k' = population (k\<lparr>buckets := (buckets k)[?idx := (buckets k ! ?idx)[pos := node]]\<rparr>)"
    unfolding Replaced(7) by (simp add: population_def)
  also have "\<dots> = population k"
    using population_update[OF Replaced(3), of "(buckets k ! ?idx)[pos := node]"] by simp
  finally have "population k' = population k" .
  moreover have "count k' = count k + 1" unfolding Replaced(7) by simp
  ultimately show ?thesis using Replaced(4,6) by (simp add: replaces_def)
qed

lemma Off_count:
  assumes run: "Off k node = Inr k'"
  shows "count k' - population k' = count k - population k - (if absent k node then 1 else 0)"
  using run
proof (cases rule: Off_cases)
  case (Absent rcd)
  then show ?thesis by (simp add: absent_def find_pos_None)
next
  case (Removed i k3 rcd)
  let ?idx = "proximityBin k (Addr node)"
  let ?b = "buckets k ! ?idx"
  from find_pos_Some[OF Removed(2)] have i: "i < length ?b" and a: "Addr (?b ! i) = Addr node"
    by simp_all
  then have "Addr node \<in> Addr ` set ?b" by (metis imageI nth_mem)
  then have na: "\<not> absent k node" by (simp add: absent_def)
  from setProxLimit_shape[OF Removed(3)] obtain pl ps where
    k3: "k3 = k\<lparr>buckets := (buckets k)[?idx := take i ?b @ drop (i + 1) ?b]\<rparr>\<lparr>proxLimit := pl, proxSize := ps\<rparr>"
    by blast
  have "population k3 = population (k\<lparr>buckets := (buckets k)[?idx := take i ?b @ drop (i + 1) ?b]\<rparr>)"
    unfolding k3 by simp
  also have "\<dots> = population k - 1"
    using population_update[OF Removed(1), of "take i ?b @ drop (i + 1) ?b"] i by simp
  finally have "population k3 = population k - 1" .
  moreover have "count k3 = count k" unfolding k3 by simp
  ultimately show ?thesis using na Removed(5) by simp
qed

lemma history_count: "history k r a \<Longrightarrow> count k = population k + int r - int a"
proof (induction rule: history.induct)
  case (hist_New a params)
  show ?case by (simp add: New_def population_def sum_list_replicate)
next
  case (hist_On k r a now node cb e k')
  from On_count[OF hist_On(2)] hist_On(3) show ?case by (auto split: if_splits)
next
  case (hist_Off k r a node k')
  from Off_count[OF hist_Off(2)] hist_Off(3) show ?case by (auto split: if_splits)
qed

lemma history_run:
  "history k r a \<Longrightarrow> history (run k cs) (r + fst (tally k cs)) (a + snd (tally k cs))"
proof (induction k cs arbitrary: r a rule: run.induct)
  case (1 k)
  then show ?case by simp
next
  case (2 k now n cs)
  show ?case
  proof (cases "On k now n None")
    case (Inl f)
    with "2.prems" show ?thesis by simp
  next
    case (Inr p)
    obtain e k' where p: "p = (e, k')" by (cases p)
    obtain r' a' where t: "tally k' cs = (r', a')" by (cases "tally k' cs")
    from Inr p have "On k now n None = Inr (e, k')" by simp
    with "2.prems" have "history k' (if replaces k n e then Suc r else r) a"
      by (rule hist_On)
    from "2.IH"[OF Inr p[symmetric] this] t Inr p show ?thesis
      by (simp split: if_splits)
  qed
next
  case (3 k n cs)
  show ?case
  proof (cases "Off k n")
    case (Inl f)
    with "3.prems" show ?thesis by simp
  next
    case (Inr k')
    obtain r' a' where t: "tally k' cs = (r', a')" by (cases "tally k' cs")
    from "3.prems" Inr have "history k' r (if absent k n then Suc a else a)"
      by (rule hist_Off)
    from "3.IH"[OF Inr this] t Inr show ?thesis
      by (simp split: if_splits)
  qed
qed

lemma reachable_history: "reachable k \<Longrightarrow> \<exists>r a. history k r a"
proof (induction rule: reachable.induct)
  case (reach_New a params)
  show ?case using hist_New by blast
next
  case (reach_On k now node cb err k')
  then obtain r a where "history k r a" by blast
  from hist_On[OF this reach_On(2)] show ?case by blast
next
  case (reach_Off k node k')
  then obtain r a where "history k r a" by blast
  from hist_Off[OF this reach_Off(2)] show ?case by blast
qed

lemma history_reachable: "history k r a \<Longrightarrow> reachable k"
  by (induction rule: history.induct) (auto intro: reachable.intros)

subsection \<open>The scan for the idlest member\<close>



subsection \<open>Bucket sizes\<close>

lemma findOrCreate_indexed:
  "db_index (snd (findOrCreate d bin a url)) a = Some (fst (findOrCreate d bin a url))"
  by (simp add: findOrCreate_def Let_def split: option.splits)

lemma On_capacity:
  assumes run: "On k now node cb = Inr (e, k')"
    and cap: "\<forall>b\<in>set (buckets k). length b \<le> BucketSize k"
  shows "\<forall>b\<in>set (buckets k'). length b \<le> BucketSize k'"
  using run
proof (cases rule: On_cases)
  case (Rejected rcd d err)
  with cap show ?thesis by simp
next
  case (Appended rcd d k3)
  let ?idx = "proximityBin k (Addr node)"
  from setProxLimit_shape[OF Appended(5)] obtain pl ps where
    k3: "k3 = k\<lparr>db := d, buckets := (buckets k)[?idx := buckets k ! ?idx @ [node]]\<rparr>\<lparr>proxLimit := pl, proxSize := ps\<rparr>"
    by blast
  have b: "buckets k' = (buckets k)[?idx := buckets k ! ?idx @ [node]]" and s: "BucketSize k' = BucketSize k"
    unfolding Appended(7) k3 by simp_all
  have "set (buckets k') \<subseteq> insert (buckets k ! ?idx @ [node]) (set (buckets k))"
    unfolding b by (rule set_update_subset_insert)
  moreover have "length (buckets k ! ?idx @ [node]) \<le> BucketSize k" using Appended(4) by simp
  ultimately show ?thesis using cap s by auto
next
  case (Full rcd d idle pos)
  with cap show ?thesis by simp
next
  case (Replaced rcd d idle pos replaced)
  let ?idx = "proximityBin k (Addr node)"
  have b: "buckets k' = (buckets k)[?idx := (buckets k ! ?idx)[pos := node]]" and s: "BucketSize k' = BucketSize k"
    unfolding Replaced(7) by simp_all
  have "set (buckets k') \<subseteq> insert ((buckets k ! ?idx)[pos := node]) (set (buckets k))"
    unfolding b by (rule set_update_subset_insert)
  moreover have "buckets k ! ?idx \<in> set (buckets k)" using Replaced(3) by simp
  then have "length ((buckets k ! ?idx)[pos := node]) \<le> BucketSize k" using cap by simp
  ultimately show ?thesis using cap s by auto
qed

lemma Off_capacity:
  assumes run: "Off k node = Inr k'"
    and cap: "\<forall>b\<in>set (buckets k). length b \<le> BucketSize k"
  shows "\<forall>b\<in>set (buckets k'). length b \<le> BucketSize k'"
  using run
proof (cases rule: Off_cases)
  case (Absent rcd)
  with cap show ?thesis by simp
next
  case (Removed i k3 rcd)
  let ?idx = "proximityBin k (Addr node)"
  let ?b = "buckets k ! ?idx"
  from setProxLimit_shape[OF Removed(3)] obtain pl ps where
    k3: "k3 = k\<lparr>buckets := (buckets k)[?idx := take i ?b @ drop (i + 1) ?b]\<rparr>\<lparr>proxLimit := pl, proxSize := ps\<rparr>"
    by blast
  have b: "buckets k' = (buckets k)[?idx := take i ?b @ drop (i + 1) ?b]" and s: "BucketSize k' = BucketSize k"
    unfolding Removed(5) k3 by simp_all
  have "set (buckets k') \<subseteq> insert (take i ?b @ drop (i + 1) ?b) (set (buckets k))"
    unfolding b by (rule set_update_subset_insert)
  moreover have "?b \<in> set (buckets k)" using Removed(1) by simp
  then have "length ?b \<le> BucketSize k" using cap by simp
  then have "length (take i ?b @ drop (i + 1) ?b) \<le> BucketSize k" by simp
  ultimately show ?thesis using cap s by auto
qed

lemma reachable_capacity: "reachable k \<Longrightarrow> \<forall>b\<in>set (buckets k). length b \<le> BucketSize k"
proof (induction rule: reachable.induct)
  case (reach_New a params)
  show ?case by (simp add: New_def)
next
  case (reach_On k now node cb err k')
  then show ?case using On_capacity by blast
next
  case (reach_Off k node k')
  then show ?case using Off_capacity by blast
qed

lemma On_buckets:
  assumes run: "On k now node cb = Inr (e, k')"
  shows "buckets k' = buckets k \<or>
     (length (buckets k ! proximityBin k (Addr node)) < BucketSize k \<and>
      buckets k' = (buckets k)[proximityBin k (Addr node) := buckets k ! proximityBin k (Addr node) @ [node]]) \<or>
     (\<not> length (buckets k ! proximityBin k (Addr node)) < BucketSize k \<and>
      (\<exists>pos. buckets k' = (buckets k)[proximityBin k (Addr node) :=
                 (buckets k ! proximityBin k (Addr node))[pos := node]]))"
  using run
proof (cases rule: On_cases)
  case (Rejected rcd d err)
  then show ?thesis by simp
next
  case (Appended rcd d k3)
  let ?idx = "proximityBin k (Addr node)"
  from setProxLimit_shape[OF Appended(5)] obtain pl ps where
    k3: "k3 = k\<lparr>db := d, buckets := (buckets k)[?idx := buckets k ! ?idx @ [node]]\<rparr>\<lparr>proxLimit := pl, proxSize := ps\<rparr>"
    by blast
  have "buckets k' = (buckets k)[?idx := buckets k ! ?idx @ [node]]"
    unfolding Appended(7) k3 by simp
  with Appended(4) show ?thesis by simp
next
  case (Full rcd d idle pos)
  then show ?thesis by simp
next
  case (Replaced rcd d idle pos replaced)
  have "buckets k' = (buckets k)[proximityBin k (Addr node) :=
                 (buckets k ! proximityBin k (Addr node))[pos := node]]"
    unfolding Replaced(7) by simp
  with Replaced(4) show ?thesis by blast
qed

subsection \<open>On after an accepting callback\<close>


subsection \<open>Binary search and push\<close>

lemma Search_loop_spec:
  "i \<le> j \<Longrightarrow> j \<le> n \<Longrightarrow> \<forall>a<i. \<not> f a \<Longrightarrow> \<forall>b. j \<le> b \<and> b < n \<longrightarrow> f b \<Longrightarrow>
         \<forall>a b. a \<le> b \<and> b < n \<and> f a \<longrightarrow> f b \<Longrightarrow>
         Search_loop i j f \<le> j \<and> (\<forall>a<Search_loop i j f. \<not> f a) \<and>
         (\<forall>b. Search_loop i j f \<le> b \<and> b < n \<longrightarrow> f b)"
proof (induction i j f rule: Search_loop.induct)
  case (1 i j f)
  show ?case
  proof (cases "i < j")
    case False
    with "1.prems" have "i = j" by simp
    moreover from False have "Search_loop i j f = i" by (simp add: Search_loop.simps)
    ultimately show ?thesis using "1.prems" by simp
  next
    case True
    define h where "h = (i + j) div 2"
    from True have hb: "i \<le> h" "h < j" by (simp_all add: h_def)
    show ?thesis
    proof (cases "f h")
      case False
      have low: "\<forall>a<h + 1. \<not> f a"
      proof (intro allI impI)
        fix a assume "a < h + 1"
        then have "a \<le> h" by simp
        moreover from hb "1.prems"(2) have "h < n" by simp
        ultimately show "\<not> f a" using False "1.prems"(5) by blast
      qed
      from True False have eq: "Search_loop i j f = Search_loop (h + 1) j f"
        by (simp add: Search_loop.simps[of i j f] h_def Let_def)
      have "Search_loop (h + 1) j f \<le> j \<and> (\<forall>a<Search_loop (h + 1) j f. \<not> f a) \<and>
         (\<forall>b. Search_loop (h + 1) j f \<le> b \<and> b < n \<longrightarrow> f b)"
        by (rule "1.IH"(1)[OF True h_def False]) (use hb low "1.prems" in simp_all)
      with eq show ?thesis by simp
    next
      case fh: True
      have high: "\<forall>b. h \<le> b \<and> b < n \<longrightarrow> f b"
        using fh "1.prems"(5) by blast
      from True fh have eq: "Search_loop i j f = Search_loop i h f"
        by (simp add: Search_loop.simps[of i j f] h_def Let_def)
      have "Search_loop i h f \<le> h \<and> (\<forall>a<Search_loop i h f. \<not> f a) \<and>
         (\<forall>b. Search_loop i h f \<le> b \<and> b < n \<longrightarrow> f b)"
        by (rule "1.IH"(2)[OF True h_def]) (use fh hb high "1.prems" in simp_all)
      with eq hb show ?thesis by simp
    qed
  qed
qed

lemma Search_spec:
  assumes "\<And>a b. a \<le> b \<Longrightarrow> b < n \<Longrightarrow> f a \<Longrightarrow> f b"
  shows "Search n f \<le> n \<and> (\<forall>a<Search n f. \<not> f a) \<and> (\<forall>b. Search n f \<le> b \<and> b < n \<longrightarrow> f b)"
  unfolding Search_def by (rule Search_loop_spec) (use assms in auto)

lemma sorted_insert_at:
  fixes ks :: "nat list"
  assumes "sorted ks" "\<forall>a<ix. ks ! a \<le> v" "\<forall>b. ix \<le> b \<and> b < length ks \<longrightarrow> v \<le> ks ! b"
    and "ix \<le> length ks"
  shows "sorted (take ix ks @ v # take m (drop ix ks))"
proof -
  have lo: "x \<le> v" if "x \<in> set (take ix ks)" for x
  proof -
    from that obtain a where "a < length (take ix ks)" "x = take ix ks ! a"
      by (auto simp: in_set_conv_nth)
    with assms(2) show ?thesis by simp
  qed
  have hi: "v \<le> y" if "y \<in> set (take m (drop ix ks))" for y
  proof -
    from that have "y \<in> set (drop ix ks)" by (rule in_set_takeD)
    then obtain b where "b < length (drop ix ks)" "y = drop ix ks ! b"
      by (auto simp: in_set_conv_nth)
    with assms(3,4) show ?thesis by simp
  qed
  have "sorted (take ix ks)" "sorted (take m (drop ix ks))"
    using assms(1) by simp_all
  with lo hi show ?thesis
    by (fastforce simp: sorted_append)
qed

lemma ProxCmp_nonneg: "ProxCmp dist t a b \<ge> 0 \<longleftrightarrow> dist t b \<le> dist t a"
  by (simp add: ProxCmp_def)

lemma push_nodes:
  assumes srt: "sorted (map (\<lambda>p. dist (target h) (Addr p)) (nodes h))"
  shows "\<exists>ix m. ix \<le> length (nodes h) \<and>
           (\<forall>a<ix. dist (target h) (Addr (nodes h ! a)) \<le> dist (target h) (Addr node)) \<and>
           (\<forall>b. ix \<le> b \<and> b < length (nodes h) \<longrightarrow>
                 dist (target h) (Addr node) \<le> dist (target h) (Addr (nodes h ! b))) \<and>
           (push dist h node limit = h \<or>
            push dist h node limit = h\<lparr>nodes := take ix (nodes h) @ node # take m (drop ix (nodes h))\<rparr> \<and>
            (int (length (nodes h)) < limit \<or> ix + m < length (nodes h)))"
proof -
  define ns where "ns = nodes h"
  define key :: "Node \<Rightarrow> nat" where "key = (\<lambda>p. dist (target h) (Addr p))"
  define f where "f = (\<lambda>i. ProxCmp dist (target h) (Addr (ns ! i)) (Addr node) \<ge> 0)"
  define ix where "ix = Search (length ns) f"
  have f: "f i \<longleftrightarrow> key node \<le> key (ns ! i)" for i
    by (simp add: f_def key_def ProxCmp_nonneg)
  from srt have sk: "sorted (map key ns)" by (simp add: ns_def key_def)
  have mono: "f b" if "a \<le> b" "b < length ns" "f a" for a b
  proof -
    from sk that(1,2) have "map key ns ! a \<le> map key ns ! b"
      by (intro sorted_nth_mono) simp_all
    with that show ?thesis by (simp add: f)
  qed
  have "Search (length ns) f \<le> length ns \<and> (\<forall>a<Search (length ns) f. \<not> f a) \<and>
        (\<forall>b. Search (length ns) f \<le> b \<and> b < length ns \<longrightarrow> f b)"
    by (rule Search_spec) (rule mono)
  then have ixn: "ix \<le> length ns" and lo: "\<forall>a<ix. \<not> f a"
    and hi: "\<forall>b. ix \<le> b \<and> b < length ns \<longrightarrow> f b"
    unfolding ix_def by blast+
  from lo have lo': "\<forall>a<ix. key (ns ! a) \<le> key node" by (auto simp: f)
  from hi have hi': "\<forall>b. ix \<le> b \<and> b < length ns \<longrightarrow> key node \<le> key (ns ! b)" by (simp add: f)
  have p: "push dist h node limit =
     (let h1 = (if int (length ns) < limit then h\<lparr>nodes := ns @ [node]\<rparr> else h)
      in if ix < length (nodes h1)
         then h1\<lparr>nodes := take ix (nodes h1) @ node #
                            take (length (nodes h1) - ix - 1) (drop ix (nodes h1))\<rparr>
         else h1)"
    by (simp add: push_def ix_def f_def ns_def Let_def)
  have res: "push dist h node limit = h \<or>
            push dist h node limit = h\<lparr>nodes := take ix ns @ node # take (length ns - ix - (if int (length ns) < limit then 0 else 1)) (drop ix ns)\<rparr> \<and>
            (int (length ns) < limit \<or> ix + (length ns - ix - (if int (length ns) < limit then 0 else 1)) < length ns)"
  proof (cases "int (length ns) < limit")
    case True
    with ixn have "push dist h node limit = h\<lparr>nodes := take ix ns @ node # drop ix ns\<rparr>"
      by (simp add: p Let_def)
    with True show ?thesis by simp
  next
    case False
    show ?thesis
    proof (cases "ix < length ns")
      case True
      with False have "push dist h node limit =
          h\<lparr>nodes := take ix ns @ node # take (length ns - ix - 1) (drop ix ns)\<rparr>"
        by (simp add: p Let_def ns_def)
      with False True show ?thesis by auto
    next
      case nl: False
      with False have "push dist h node limit = h" by (simp add: p Let_def ns_def)
      then show ?thesis by simp
    qed
  qed
  show ?thesis
    using ixn lo' hi' res unfolding ns_def key_def by blast
qed

lemma push_sorted:
  assumes srt: "sorted (map (\<lambda>p. dist (target h) (Addr p)) (nodes h))"
    and len: "length (nodes h) \<le> nat limit"
  shows "sorted (map (\<lambda>p. dist (target h) (Addr p)) (nodes (push dist h node limit))) \<and>
         length (nodes (push dist h node limit)) \<le> nat limit \<and>
         target (push dist h node limit) = target h"
proof -
  from push_nodes[where dist = dist and h = h and node = node and limit = limit, OF srt]
  obtain ix m where
    ixn: "ix \<le> length (nodes h)"
    and lo: "\<forall>a<ix. dist (target h) (Addr (nodes h ! a)) \<le> dist (target h) (Addr node)"
    and hi: "\<forall>b. ix \<le> b \<and> b < length (nodes h) \<longrightarrow>
                 dist (target h) (Addr node) \<le> dist (target h) (Addr (nodes h ! b))"
    and res: "push dist h node limit = h \<or>
            push dist h node limit = h\<lparr>nodes := take ix (nodes h) @ node # take m (drop ix (nodes h))\<rparr> \<and>
            (int (length (nodes h)) < limit \<or> ix + m < length (nodes h))"
    by blast
  from res show ?thesis
  proof
    assume "push dist h node limit = h"
    with srt len show ?thesis by simp
  next
    assume r: "push dist h node limit = h\<lparr>nodes := take ix (nodes h) @ node # take m (drop ix (nodes h))\<rparr> \<and>
            (int (length (nodes h)) < limit \<or> ix + m < length (nodes h))"
    let ?ks = "map (\<lambda>p. dist (target h) (Addr p)) (nodes h)"
    have "sorted (take ix ?ks @ dist (target h) (Addr node) # take m (drop ix ?ks))"
      by (rule sorted_insert_at[OF srt]) (use ixn lo hi in simp_all)
    then have s: "sorted (map (\<lambda>p. dist (target h) (Addr p))
                     (take ix (nodes h) @ node # take m (drop ix (nodes h))))"
      by (simp add: take_map drop_map)
    have l: "length (take ix (nodes h) @ node # take m (drop ix (nodes h))) \<le> nat limit"
      using r len ixn by auto
    from r s l show ?thesis by simp
  qed
qed

lemma foldl_push_sorted:
  "sorted (map (\<lambda>p. dist (target h) (Addr p)) (nodes h)) \<Longrightarrow> length (nodes h) \<le> nat limit \<Longrightarrow>
   sorted (map (\<lambda>p. dist (target h) (Addr p)) (nodes (foldl (\<lambda>h p. push dist h p limit) h ps))) \<and>
   length (nodes (foldl (\<lambda>h p. push dist h p limit) h ps)) \<le> nat limit \<and>
   target (foldl (\<lambda>h p. push dist h p limit) h ps) = target h"
proof (induction ps arbitrary: h)
  case Nil
  then show ?case by simp
next
  case (Cons p ps)
  from push_sorted[where dist = dist and h = h and node = p and limit = limit, OF Cons.prems]
  have a: "sorted (map (\<lambda>q. dist (target h) (Addr q)) (nodes (push dist h p limit)))"
    and b: "length (nodes (push dist h p limit)) \<le> nat limit"
    and c: "target (push dist h p limit) = target h" by blast+
  from a c have a': "sorted (map (\<lambda>q. dist (target (push dist h p limit)) (Addr q))
                        (nodes (push dist h p limit)))" by simp
  from Cons.IH[where h = "push dist h p limit", OF a' b] c show ?case by simp
qed

subsection \<open>The loop of FindClosest\<close>

lemma scan_bucket_fields [simp]:
  "s_index (scan_bucket dist k limit s) = s_index s"
  "s_step (scan_bucket dist k limit s) = s_step s"
  "stopped (scan_bucket dist k limit s) = stopped s"
  "s_n (scan_bucket dist k limit s) = s_n s + int (length (buckets k ! nat (s_index s)))"
  "visited (scan_bucket dist k limit s) = visited s @ [nat (s_index s)]"
  "s_r (scan_bucket dist k limit s) =
     foldl (\<lambda>h p. push dist h p limit) (s_r s) (buckets k ! nat (s_index s))"
  by (simp_all add: scan_bucket_def)

lemma scan_next_fields [simp]:
  "s_n (scan_next k po s) = s_n s"
  "s_r (scan_next k po s) = s_r s"
  "visited (scan_next k po s) = visited s"
  "stopped (scan_next k po s) = stopped s"
  "s_step (scan_next k po s) = (if s_index s = int (MaxProx k) then - 1 else s_step s)"
  "s_index (scan_next k po s) =
     (if s_index s = int (MaxProx k) then int po - 1 else s_index s + s_step s)"
  by (simp_all add: scan_next_def Let_def)

lemma scan_phase_next:
  assumes "scan_phase k po s" "0 \<le> s_index s" "po \<le> MaxProx k"
  shows "scan_phase k po (scan_next k po (scan_bucket dist k limit s)) \<and>
         scan_measure k po (scan_next k po (scan_bucket dist k limit s)) < scan_measure k po s"
  using assms by (auto simp: scan_phase_def scan_measure_def)

lemma FindClosest_loop_rule:
  assumes len: "length (buckets k) = MaxProx k + 1" and po: "po \<le> MaxProx k"
    and nxt: "\<And>s. scan_phase k po s \<Longrightarrow> I s \<Longrightarrow> 0 \<le> s_index s \<Longrightarrow>
                \<not> scan_stop mx mn (scan_bucket dist k limit s) \<Longrightarrow>
                I (scan_next k po (scan_bucket dist k limit s))"
    and stp: "\<And>s. scan_phase k po s \<Longrightarrow> I s \<Longrightarrow> 0 \<le> s_index s \<Longrightarrow>
                scan_stop mx mn (scan_bucket dist k limit s) \<Longrightarrow>
                Q ((scan_bucket dist k limit s)\<lparr>stopped := True\<rparr>)"
    and ext: "\<And>s. scan_phase k po s \<Longrightarrow> I s \<Longrightarrow> s_index s < 0 \<Longrightarrow> Q s"
  shows "scan_phase k po s \<Longrightarrow> I s \<Longrightarrow>
         \<exists>s'. FindClosest_loop dist k po mx mn limit s = Some (Inr s') \<and> Q s'"
proof (induction "scan_measure k po s" arbitrary: s rule: less_induct)
  case less
  show ?case
  proof (cases "0 \<le> s_index s")
    case False
    then have "FindClosest_loop dist k po mx mn limit s = Some (Inr s)"
      by (subst FindClosest_loop.simps) simp
    moreover from False less.prems have "Q s" by (intro ext) simp_all
    ultimately show ?thesis by blast
  next
    case True
    from less.prems(1) po have "s_index s \<le> int (MaxProx k)"
      by (auto simp: scan_phase_def)
    with True len have rng: "nat (s_index s) < length (buckets k)" by simp
    let ?s1 = "scan_bucket dist k limit s"
    show ?thesis
    proof (cases "scan_stop mx mn ?s1")
      case st: True
      with True rng have "FindClosest_loop dist k po mx mn limit s = Some (Inr (?s1\<lparr>stopped := True\<rparr>))"
        by (subst FindClosest_loop.simps) (simp add: Let_def)
      moreover have "Q (?s1\<lparr>stopped := True\<rparr>)"
        using less.prems True st by (rule stp)
      ultimately show ?thesis by blast
    next
      case ns: False
      with True rng have eq: "FindClosest_loop dist k po mx mn limit s =
          FindClosest_loop dist k po mx mn limit (scan_next k po ?s1)"
        by (subst FindClosest_loop.simps) (simp add: Let_def)
      from scan_phase_next[OF less.prems(1) True po, of dist limit]
      have ph: "scan_phase k po (scan_next k po ?s1)"
        and ms: "scan_measure k po (scan_next k po ?s1) < scan_measure k po s" by blast+
      have "I (scan_next k po ?s1)" using less.prems True ns by (rule nxt)
      from less.hyps[OF ms ph this] eq show ?thesis by simp
    qed
  qed
qed

lemma visited_up:
  assumes "s_step s = 1" "scan_phase k po s" "visited s = [po..<nat (s_index s)]"
  shows "visited s @ [nat (s_index s)] = [po..<nat (s_index s) + 1]"
proof -
  from assms(1,2) have "int po \<le> s_index s" by (auto simp: scan_phase_def)
  then have "po \<le> nat (s_index s)" by simp
  with assms(3) show ?thesis by simp
qed

lemma visited_down:
  assumes "s_step s = - 1" "scan_phase k po s" "0 \<le> s_index s"
    "visited s = [po..<MaxProx k + 1] @ rev [nat (s_index s + 1)..<po]"
  shows "visited s @ [nat (s_index s)] = [po..<MaxProx k + 1] @ rev [nat (s_index s)..<po]"
proof -
  from assms(1,2) have "s_index s < int po" by (auto simp: scan_phase_def)
  with assms(3) have lt: "nat (s_index s) < po" by simp
  from assms(3) have "nat (s_index s + 1) = Suc (nat (s_index s))" by simp
  moreover from lt have "[nat (s_index s)..<po] = nat (s_index s) # [Suc (nat (s_index s))..<po]"
    by (rule upt_conv_Cons)
  ultimately show ?thesis using assms(4) by simp
qed

lemma scan_inv_bucket:
  assumes inv: "scan_inv dist k tgt po limit s"
  shows "sorted (map (\<lambda>p. dist tgt (Addr p)) (nodes (s_r (scan_bucket dist k limit s))))"
    and "length (nodes (s_r (scan_bucket dist k limit s))) \<le> nat limit"
    and "target (s_r (scan_bucket dist k limit s)) = tgt"
    and "s_n (scan_bucket dist k limit s) =
           (\<Sum>i\<leftarrow>visited (scan_bucket dist k limit s). int (length (buckets k ! i)))"
proof -
  from inv have a: "sorted (map (\<lambda>p. dist (target (s_r s)) (Addr p)) (nodes (s_r s)))"
    and b: "length (nodes (s_r s)) \<le> nat limit" and t: "target (s_r s) = tgt"
    and n: "s_n s = (\<Sum>i\<leftarrow>visited s. int (length (buckets k ! i)))"
    by (simp_all add: scan_inv_def)
  from foldl_push_sorted[where dist = dist and h = "s_r s" and limit = limit
      and ps = "buckets k ! nat (s_index s)", OF a b] t
  show "sorted (map (\<lambda>p. dist tgt (Addr p)) (nodes (s_r (scan_bucket dist k limit s))))"
    and "length (nodes (s_r (scan_bucket dist k limit s))) \<le> nat limit"
    and "target (s_r (scan_bucket dist k limit s)) = tgt"
    by simp_all
  from n show "s_n (scan_bucket dist k limit s) =
           (\<Sum>i\<leftarrow>visited (scan_bucket dist k limit s). int (length (buckets k ! i)))"
    by simp
qed

lemma scan_inv_next:
  assumes ph: "scan_phase k po s" and inv: "scan_inv dist k tgt po limit s"
    and nn: "0 \<le> s_index s" and po: "po \<le> MaxProx k"
  shows "scan_inv dist k tgt po limit (scan_next k po (scan_bucket dist k limit s))"
proof -
  let ?s1 = "scan_bucket dist k limit s"
  let ?s2 = "scan_next k po ?s1"
  note b = scan_inv_bucket[OF inv]
  from inv have up: "s_step s = 1 \<longrightarrow> visited s = [po..<nat (s_index s)]"
    and dn: "s_step s = - 1 \<longrightarrow> visited s = [po..<MaxProx k + 1] @ rev [nat (s_index s + 1)..<po]"
    and ns: "\<not> stopped s"
    by (simp_all add: scan_inv_def)
  from ph have cases: "s_step s = 1 \<or> s_step s = - 1" by (auto simp: scan_phase_def)
  have v1: "s_step ?s2 = 1 \<longrightarrow> visited ?s2 = [po..<nat (s_index ?s2)]"
  proof
    assume "s_step ?s2 = 1"
    then have s1: "s_step s = 1" and nm: "s_index s \<noteq> int (MaxProx k)"
      by (auto split: if_splits)
    from visited_up[OF s1 ph] up s1 have "visited s @ [nat (s_index s)] = [po..<nat (s_index s) + 1]"
      by simp
    moreover from nn have "nat (s_index s + 1) = nat (s_index s) + 1" by simp
    ultimately show "visited ?s2 = [po..<nat (s_index ?s2)]" using s1 nm by simp
  qed
  have v2: "s_step ?s2 = - 1 \<longrightarrow>
            visited ?s2 = [po..<MaxProx k + 1] @ rev [nat (s_index ?s2 + 1)..<po]"
  proof
    assume "s_step ?s2 = - 1"
    from cases show "visited ?s2 = [po..<MaxProx k + 1] @ rev [nat (s_index ?s2 + 1)..<po]"
    proof
      assume s1: "s_step s = 1"
      with \<open>s_step ?s2 = - 1\<close> have m: "s_index s = int (MaxProx k)" by (auto split: if_splits)
      from visited_up[OF s1 ph] up s1 have "visited s @ [nat (s_index s)] = [po..<nat (s_index s) + 1]"
        by simp
      with m show ?thesis by simp
    next
      assume s1: "s_step s = - 1"
      with ph po have nm: "s_index s \<noteq> int (MaxProx k)" by (auto simp: scan_phase_def)
      from visited_down[OF s1 ph nn] dn s1
      have "visited s @ [nat (s_index s)] = [po..<MaxProx k + 1] @ rev [nat (s_index s)..<po]"
        by simp
      with s1 nm show ?thesis by simp
    qed
  qed
  show ?thesis
    unfolding scan_inv_def using b v1 v2 ns by simp
qed

lemma FindClosest_scan_post:
  assumes len: "length (buckets k) = MaxProx k + 1"
  shows "\<exists>s. FindClosest_scan dist k tgt mx = Some (Inr s) \<and> scan_post dist k tgt mx s"
proof -
  define po where "po = proximityBin k tgt"
  define mn where "mn = (if mx = 0 then 1 else mx)"
  define limit where "limit = (if mx = 0 then maxPeers else mx)"
  define s0 where "s0 = \<lparr>s_index = int po, s_step = 1, s_n = 0,
            s_r = \<lparr>nodes = [], target = tgt\<rparr>, visited = [], stopped = False\<rparr>"
  have po: "po \<le> MaxProx k" unfolding po_def by (rule proximityBin_le)
  have ph0: "scan_phase k po s0" using po by (simp add: scan_phase_def s0_def)
  have inv0: "scan_inv dist k tgt po limit s0" by (simp add: scan_inv_def s0_def)
  have nxt: "scan_inv dist k tgt po limit (scan_next k po (scan_bucket dist k limit s))"
    if "scan_phase k po s" "scan_inv dist k tgt po limit s" "0 \<le> s_index s"
      "\<not> scan_stop mx mn (scan_bucket dist k limit s)" for s
    using that(1,2,3) po by (rule scan_inv_next)
  have stp: "scan_post dist k tgt mx ((scan_bucket dist k limit s)\<lparr>stopped := True\<rparr>)"
    if ph: "scan_phase k po s" and inv: "scan_inv dist k tgt po limit s" and nn: "0 \<le> s_index s"
      and st: "scan_stop mx mn (scan_bucket dist k limit s)" for s
  proof -
    let ?s1 = "scan_bucket dist k limit s"
    note b = scan_inv_bucket[OF inv]
    from inv have up: "s_step s = 1 \<longrightarrow> visited s = [po..<nat (s_index s)]"
      and dn: "s_step s = - 1 \<longrightarrow> visited s = [po..<MaxProx k + 1] @ rev [nat (s_index s + 1)..<po]"
      by (simp_all add: scan_inv_def)
    from ph have cases: "s_step s = 1 \<or> s_step s = - 1" by (auto simp: scan_phase_def)
    have tr: "(s_step s = 1 \<and> (\<exists>j. po \<le> j \<and> j \<le> MaxProx k \<and> visited ?s1 = [po..<j + 1])) \<or>
              (s_step s = - 1 \<and> (\<exists>j. j \<le> po \<and> visited ?s1 = [po..<MaxProx k + 1] @ rev [j..<po]))"
      using cases
    proof
      assume s1: "s_step s = 1"
      from visited_up[OF s1 ph] up s1 have "visited ?s1 = [po..<nat (s_index s) + 1]" by simp
      moreover from s1 ph have "po \<le> nat (s_index s)" "nat (s_index s) \<le> MaxProx k"
        by (auto simp: scan_phase_def)
      ultimately show ?thesis using s1 by blast
    next
      assume s1: "s_step s = - 1"
      from visited_down[OF s1 ph nn] dn s1
      have "visited ?s1 = [po..<MaxProx k + 1] @ rev [nat (s_index s)..<po]" by simp
      moreover from s1 ph have "nat (s_index s) \<le> po" by (auto simp: scan_phase_def)
      ultimately show ?thesis using s1 by blast
    qed
    from st cases have stop: "mn \<le> s_n ?s1 \<and> (s_step s = - 1 \<or> mx = 0)"
      by (auto simp: scan_stop_def)
    show ?thesis
      unfolding scan_post_def using b tr stop
      by (simp add: po_def[symmetric] mn_def[symmetric] limit_def[symmetric])
  qed
  have ext: "scan_post dist k tgt mx s"
    if ph: "scan_phase k po s" and inv: "scan_inv dist k tgt po limit s" and neg: "s_index s < 0" for s
  proof -
    from ph neg have s1: "s_step s = - 1" and ix: "s_index s = - 1"
      by (auto simp: scan_phase_def)
    from inv s1 ix have v: "visited s = [po..<MaxProx k + 1] @ rev [0..<po]"
      by (simp add: scan_inv_def)
    then have "\<exists>j. j \<le> po \<and> visited s = [po..<MaxProx k + 1] @ rev [j..<po]" by blast
    with inv s1 v show ?thesis
      unfolding scan_post_def scan_inv_def
      by (simp add: po_def[symmetric] mn_def[symmetric] limit_def[symmetric])
  qed
  have "\<exists>s'. FindClosest_loop dist k po mx mn limit s0 = Some (Inr s') \<and> scan_post dist k tgt mx s'"
    using len po nxt stp ext ph0 inv0
    by (rule FindClosest_loop_rule[where I = "scan_inv dist k tgt po limit"])
  moreover have "FindClosest_scan dist k tgt mx = FindClosest_loop dist k po mx mn limit s0"
    by (simp add: FindClosest_scan_def Let_def po_def mn_def limit_def s0_def)
  ultimately show ?thesis by simp
qed

lemma reachable_length: "reachable k \<Longrightarrow> length (buckets k) = MaxProx k + 1"
  using reachable_core_inv[of k] unfolding core_inv_def by blast

section \<open>The claims\<close>

text \<open>
  C1 (no-gap invariant). In every table state reachable from a fresh table by calls of
  \<open>On\<close> and \<open>Off\<close>, every bucket whose proximity order is below \<open>proxLimit\<close> exists and is
  non-empty. No bucket is excepted: \<open>proxLimit\<close> never passes the bucket of the
  local node's own address.
\<close>

theorem no_gap_invariant:
  "reachable k \<Longrightarrow> i < proxLimit k \<Longrightarrow> i < length (buckets k) \<and> buckets k ! i \<noteq> []"
proof -
  assume "reachable k" and i: "i < proxLimit k"
  then have "core_inv k" by (simp add: reachable_core_inv)
  then have "length (buckets k) = MaxProx k + 1" "proxLimit k \<le> MaxProx k"
    "\<forall>i < proxLimit k. buckets k ! i \<noteq> []"
    unfolding core_inv_def by blast+
  with i show ?thesis by simp
qed

theorem no_gap_invariant_witness:
  "reachable table3 \<and> 0 < proxLimit table3 \<and>
   0 < length (buckets table3) \<and> buckets table3 ! 0 \<noteq> []"
proof -
  have r: "reachable table3"
    unfolding table3_def by (intro reachable_run reach_New)
  have p: "0 < proxLimit table3" by code_simp
  from no_gap_invariant[OF r p] r p show ?thesis by simp
qed

text \<open>
  C2 (core-size invariant). In every reachable table state \<open>proxSize\<close> is the sum of the
  bucket occupancies over the proximity orders from \<open>proxLimit\<close> to \<open>MaxProx\<close>, and
  whenever \<open>proxLimit > 0\<close> that sum is at least \<open>ProxBinSize\<close>.
\<close>

theorem core_size_invariant:
  "reachable k \<Longrightarrow> 0 < proxLimit k \<Longrightarrow>
   proxSize k = (\<Sum>i = proxLimit k..MaxProx k. int (length (buckets k ! i))) \<and>
   int (ProxBinSize k) \<le> (\<Sum>i = proxLimit k..MaxProx k. int (length (buckets k ! i)))"
proof -
  assume "reachable k" and p: "0 < proxLimit k"
  then have "core_inv k" by (simp add: reachable_core_inv)
  then have "proxSize k = core_size k" "0 < proxLimit k \<longrightarrow> int (ProxBinSize k) \<le> proxSize k"
    unfolding core_inv_def by blast+
  with p show ?thesis by (simp add: core_size_def)
qed

theorem core_size_invariant_witness:
  "reachable table3 \<and> 0 < proxLimit table3 \<and>
   proxSize table3 = (\<Sum>i = proxLimit table3..MaxProx table3. int (length (buckets table3 ! i))) \<and>
   int (ProxBinSize table3) \<le> (\<Sum>i = proxLimit table3..MaxProx table3. int (length (buckets table3 ! i)))"
proof -
  have r: "reachable table3"
    unfolding table3_def by (intro reachable_run reach_New)
  have p: "0 < proxLimit table3" by code_simp
  from core_size_invariant[OF r p] r p show ?thesis by simp
qed

text \<open>
  C3 (count consistency) fails as stated: after four peers have filled bucket 0 and a fifth
  has replaced the idlest of them, \<open>count\<close> is 5 and the buckets hold 4 peers.
\<close>

theorem count_consistency_counterexample:
  "reachable table_repl \<and> count table_repl = 5 \<and> population table_repl = 4 \<and>
   count table_repl \<noteq> population table_repl"
proof -
  have "reachable table_repl"
    unfolding table_repl_def by (intro reachable_run reach_New)
  moreover have "count table_repl = 5" by code_simp
  moreover have "population table_repl = 4" by code_simp
  ultimately show ?thesis by simp
qed

text \<open>
  C3, amended. In every table state reached from a fresh table by calls of \<open>On\<close> and \<open>Off\<close>,
  \<open>count\<close> is the number of peers in the buckets, plus the number of calls of \<open>On\<close> that
  replaced a member of a full bucket, minus the number of calls of \<open>Off\<close> for a peer absent
  from its bucket. An appending \<open>On\<close>, a failing \<open>On\<close> and an \<open>Off\<close> that finds its peer
  change \<open>count\<close> and the number of peers in the buckets by the same amount. Every
  reachable table state has such a history (\<open>reachable_history\<close>).
\<close>

theorem count_history:
  "history k r a \<Longrightarrow> count k = population k + int r - int a"
  by (rule history_count)

theorem count_history_witness:
  "history table_repl 1 0 \<and> count table_repl = population table_repl + int 1 - int 0"
proof -
  let ?cs = "[Join 10 (peer b1 5), Join 10 (peer b2 3), Join 10 (peer b3 7), Join 10 (peer b4 4),
      Join late (peer b5 late)]"
  have t: "tally (New base NewDefaultKadParams) ?cs = (1, 0)" by code_simp
  have "history (run (New base NewDefaultKadParams) ?cs)
          (0 + fst (tally (New base NewDefaultKadParams) ?cs))
          (0 + snd (tally (New base NewDefaultKadParams) ?cs))"
    by (rule history_run[OF hist_New])
  then have h: "history table_repl 1 0"
    unfolding t table_repl_def by (simp only: fst_conv snd_conv add_0)
  from count_history[OF h] h show ?thesis by simp
qed

text \<open>
  C4 (capacity bound). In every reachable table state the bucket at every proximity order
  holds at most \<open>BucketSize\<close> peers. A call of \<open>On\<close> that returns leaves the buckets as they
  are, or appends the peer to its bucket, which then had fewer than \<open>BucketSize\<close> members, or
  overwrites one member of its bucket, which then was full: it never grows a full bucket.
\<close>

theorem capacity_bound:
  "(reachable k \<longrightarrow> i \<le> MaxProx k \<longrightarrow> length (buckets k ! i) \<le> BucketSize k) \<and>
   (On k now node cb = Inr (e, k') \<longrightarrow>
      buckets k' = buckets k \<or>
      (length (buckets k ! proximityBin k (Addr node)) < BucketSize k \<and>
       buckets k' = (buckets k)[proximityBin k (Addr node) :=
                       buckets k ! proximityBin k (Addr node) @ [node]]) \<or>
      (\<not> length (buckets k ! proximityBin k (Addr node)) < BucketSize k \<and>
       (\<exists>pos. buckets k' = (buckets k)[proximityBin k (Addr node) :=
                  (buckets k ! proximityBin k (Addr node))[pos := node]])))"
proof (intro conjI impI)
  assume r: "reachable k" and i: "i \<le> MaxProx k"
  from r have "core_inv k" by (rule reachable_core_inv)
  then have "length (buckets k) = MaxProx k + 1" unfolding core_inv_def by blast
  with i have "buckets k ! i \<in> set (buckets k)" by simp
  with reachable_capacity[OF r] show "length (buckets k ! i) \<le> BucketSize k" by blast
next
  assume "On k now node cb = Inr (e, k')"
  then show "buckets k' = buckets k \<or>
      (length (buckets k ! proximityBin k (Addr node)) < BucketSize k \<and>
       buckets k' = (buckets k)[proximityBin k (Addr node) :=
                       buckets k ! proximityBin k (Addr node) @ [node]]) \<or>
      (\<not> length (buckets k ! proximityBin k (Addr node)) < BucketSize k \<and>
       (\<exists>pos. buckets k' = (buckets k)[proximityBin k (Addr node) :=
                  (buckets k ! proximityBin k (Addr node))[pos := node]]))"
    by (rule On_buckets)
qed

theorem capacity_bound_witness:
  "reachable table_full \<and> 0 \<le> MaxProx table_full \<and>
   length (buckets table_full ! 0) \<le> BucketSize table_full \<and>
   length (buckets table_full ! 0) = 4 \<and>
   (\<exists>e k'. On table_full late (peer b5 late) None = Inr (e, k') \<and>
      (buckets k' = buckets table_full \<or>
       (length (buckets table_full ! proximityBin table_full (Addr (peer b5 late))) < BucketSize table_full \<and>
        buckets k' = (buckets table_full)[proximityBin table_full (Addr (peer b5 late)) :=
                       buckets table_full ! proximityBin table_full (Addr (peer b5 late)) @ [peer b5 late]]) \<or>
       (\<not> length (buckets table_full ! proximityBin table_full (Addr (peer b5 late))) < BucketSize table_full \<and>
        (\<exists>pos. buckets k' = (buckets table_full)[proximityBin table_full (Addr (peer b5 late)) :=
                  (buckets table_full ! proximityBin table_full (Addr (peer b5 late)))[pos := peer b5 late]]))))"
proof -
  have r: "reachable table_full"
    unfolding table_full_def by (intro reachable_run reach_New)
  have four: "length (buckets table_full ! 0) = 4" by code_simp
  have "case On table_full late (peer b5 late) None of Inl f \<Rightarrow> False | Inr p \<Rightarrow> True"
    by code_simp
  then obtain e k' where on: "On table_full late (peer b5 late) None = Inr (e, k')"
    by (cases "On table_full late (peer b5 late) None") auto
  from capacity_bound[of table_full 0 late "peer b5 late" None e k'] r on four
  show ?thesis by blast
qed



text \<open>
  C6 (\<open>Off\<close> on an absent peer) fails as stated: after a peer has joined and left, the
  buckets are empty and \<open>count\<close> is 0; a second \<open>Off\<close> for that peer returns with
  \<open>count = -1\<close>, below the number of peers in the buckets.
\<close>

theorem Off_absent_counterexample:
  "reachable table_off \<and> concat (buckets table_off) = [] \<and> population table_off = 0 \<and>
   (case Off table_off (peer a0 0) of
      Inl f \<Rightarrow> False
    | Inr k' \<Rightarrow> count k' = - 1 \<and> population k' = 0 \<and> count k' < population k')"
proof -
  have "reachable table_off"
    unfolding table_off_def by (intro reachable_run reach_New)
  moreover have "concat (buckets table_off) = []" by code_simp
  moreover have "population table_off = 0" by code_simp
  moreover have "case Off table_off (peer a0 0) of
      Inl f \<Rightarrow> False
    | Inr k' \<Rightarrow> count k' = - 1 \<and> population k' = 0 \<and> count k' < population k'"
    by code_simp
  ultimately show ?thesis by simp
qed

text \<open>
  C6, amended. For a table with \<open>MaxProx + 1\<close> buckets and a peer whose address occurs in no
  bucket: if the registry has a record for the address, \<open>Off\<close> returns, the buckets,
  \<open>proxLimit\<close> and \<open>proxSize\<close> are unchanged, and \<open>count\<close> is decremented by exactly one
  (the decrement that balances the increment of a replacing \<open>On\<close>); if the registry has no
  record, \<open>Off\<close> panics on the nil record.
\<close>

theorem Off_absent:
  assumes nowhere: "\<forall>b\<in>set (buckets k). Addr node \<notin> Addr ` set b"
    and len: "length (buckets k) = MaxProx k + 1"
  shows "case Off k node of
           Inl f \<Rightarrow> f = NilDereference \<and> db_index (db k) (Addr node) = None
         | Inr k' \<Rightarrow> db_index (db k) (Addr node) \<noteq> None \<and>
               buckets k' = buckets k \<and> proxLimit k' = proxLimit k \<and>
               proxSize k' = proxSize k \<and> count k' = count k - 1"
proof -
  define idx where "idx = proximityBin k (Addr node)"
  have lt: "idx < length (buckets k)"
    using proximityBin_le[of k "Addr node"] len by (simp add: idx_def)
  then have "buckets k ! idx \<in> set (buckets k)" by simp
  with nowhere have "Addr node \<notin> Addr ` set (buckets k ! idx)" by blast
  then have fp: "find_pos (Addr node) (buckets k ! idx) 0 = None"
    by (simp add: find_pos_None)
  have off: "Off k node =
      (case db_index (db k) (Addr node) of
         None \<Rightarrow> Inl NilDereference
       | Some rcd \<Rightarrow> Inr (k\<lparr>db := set_record_node (db k) (Addr node) rcd None,
                             count := count k - 1\<rparr>))"
    using lt fp unfolding idx_def by (simp add: Off_def Let_def)
  show ?thesis
  proof (cases "db_index (db k) (Addr node)")
    case None
    with off show ?thesis by simp
  next
    case (Some rcd)
    with off show ?thesis by simp
  qed
qed

theorem Off_absent_witness:
  "Addr (peer b2 3) \<notin> Addr ` set (concat (buckets table_repl)) \<and>
   length (buckets table_repl) = MaxProx table_repl + 1 \<and>
   (case Off table_repl (peer b2 3) of
           Inl f \<Rightarrow> f = NilDereference \<and> db_index (db table_repl) (Addr (peer b2 3)) = None
         | Inr k' \<Rightarrow> db_index (db table_repl) (Addr (peer b2 3)) \<noteq> None \<and>
               buckets k' = buckets table_repl \<and> proxLimit k' = proxLimit table_repl \<and>
               proxSize k' = proxSize table_repl \<and> count k' = count table_repl - 1) \<and>
   (case Off table_repl (peer b2 3) of Inl f \<Rightarrow> False | Inr k' \<Rightarrow> count k' = 4 \<and> population k' = 4)"
proof -
  have h0: "Addr (peer b2 3) \<notin> Addr ` set (concat (buckets table_repl))" by code_simp
  then have h1: "\<forall>b\<in>set (buckets table_repl). Addr (peer b2 3) \<notin> Addr ` set b" by auto
  have h2: "length (buckets table_repl) = MaxProx table_repl + 1" by code_simp
  have v: "case Off table_repl (peer b2 3) of Inl f \<Rightarrow> False | Inr k' \<Rightarrow> count k' = 4 \<and> population k' = 4"
    by code_simp
  from Off_absent[OF h1 h2] h0 h2 v show ?thesis by blast
qed

text \<open>
  C7 (closest-peers ordering and length). For every distance, target and \<open>max\<close>, on every
  reachable table state \<open>FindClosest\<close> returns a sequence of peers that is sorted by
  non-decreasing distance to the target and no longer than \<open>max\<close>, or than \<open>maxPeers\<close> when
  \<open>max\<close> is 0 (a negative \<open>max\<close> bounds the length by 0: the sequence is empty).
\<close>

theorem FindClosest_sorted:
  "reachable k \<Longrightarrow>
   \<exists>ns. FindClosest dist k tgt mx = Some (Inr ns) \<and>
        sorted (map (\<lambda>p. dist tgt (Addr p)) ns) \<and>
        length ns \<le> nat (if mx = 0 then maxPeers else mx)"
proof -
  assume "reachable k"
  then have "length (buckets k) = MaxProx k + 1" by (rule reachable_length)
  from FindClosest_scan_post[OF this, of dist tgt mx] obtain s where
    "FindClosest_scan dist k tgt mx = Some (Inr s)" "scan_post dist k tgt mx s" by blast
  then show ?thesis by (simp add: FindClosest_def scan_post_def)
qed

theorem FindClosest_sorted_witness:
  "reachable table_repl \<and>
   (\<exists>ns. FindClosest xor_distance table_repl b2 3 = Some (Inr ns) \<and>
        sorted (map (\<lambda>p. xor_distance b2 (Addr p)) ns) \<and>
        length ns \<le> nat (if (3::int) = 0 then maxPeers else 3)) \<and>
   FindClosest xor_distance table_repl b2 3 = Some (Inr [peer b5 late, peer b1 5, peer b4 4])"
proof -
  have r: "reachable table_repl"
    unfolding table_repl_def by (intro reachable_run reach_New)
  have v: "FindClosest xor_distance table_repl b2 3 = Some (Inr [peer b5 late, peer b1 5, peer b4 4])"
    by code_simp
  from FindClosest_sorted[OF r, of xor_distance b2 3] r v show ?thesis by blast
qed




text \<open>
  C9 (callback rejection). If the insertion callback returns an error on the record that
  \<open>findOrCreate\<close> returned for the peer's address, then \<open>On\<close> returns an error carrying it;
  the buckets, \<open>count\<close>, \<open>proxLimit\<close> and \<open>proxSize\<close> are as before the call, no peer is
  dropped, and the registry holds that record under the peer's address.
\<close>

theorem On_callback_rejected:
  assumes "f (fst (findOrCreate (db k) (proximityBin k (Addr node)) (Addr node) (URL node))) node = Some err"
  shows "\<exists>k'. On k now node (Some f) = Inr (Some (CallbackError err), k') \<and>
           buckets k' = buckets k \<and> count k' = count k \<and>
           proxLimit k' = proxLimit k \<and> proxSize k' = proxSize k \<and>
           dropped k' = dropped k \<and>
           db_index (db k') (Addr node) =
             Some (fst (findOrCreate (db k) (proximityBin k (Addr node)) (Addr node) (URL node)))"
proof -
  obtain rcd d where fc: "findOrCreate (db k) (proximityBin k (Addr node)) (Addr node) (URL node) = (rcd, d)"
    by (cases "findOrCreate (db k) (proximityBin k (Addr node)) (Addr node) (URL node)")
  with assms have "f rcd node = Some err" by simp
  with fc have "On k now node (Some f) = Inr (Some (CallbackError err), k\<lparr>db := d\<rparr>)"
    by (simp add: On_def Let_def)
  moreover have "db_index d (Addr node) = Some rcd"
    using findOrCreate_indexed[of "db k" "proximityBin k (Addr node)" "Addr node" "URL node"] fc
    by simp
  ultimately show ?thesis using fc by simp
qed

theorem On_callback_rejected_witness:
  "refuse (fst (findOrCreate (db table3) (proximityBin table3 (Addr (peer b1 0)))
       (Addr (peer b1 0)) (URL (peer b1 0)))) (peer b1 0) = Some ''unwanted'' \<and>
   (\<exists>k'. On table3 0 (peer b1 0) (Some refuse) = Inr (Some (CallbackError ''unwanted''), k') \<and>
           buckets k' = buckets table3 \<and> count k' = count table3 \<and>
           proxLimit k' = proxLimit table3 \<and> proxSize k' = proxSize table3 \<and>
           dropped k' = dropped table3 \<and>
           db_index (db k') (Addr (peer b1 0)) =
             Some (fst (findOrCreate (db table3) (proximityBin table3 (Addr (peer b1 0)))
                     (Addr (peer b1 0)) (URL (peer b1 0)))))"
proof -
  have h: "refuse (fst (findOrCreate (db table3) (proximityBin table3 (Addr (peer b1 0)))
       (Addr (peer b1 0)) (URL (peer b1 0)))) (peer b1 0) = Some ''unwanted''"
    by (simp add: refuse_def)
  from On_callback_rejected[where f = refuse and k = table3 and node = "peer b1 0"
      and err = "''unwanted''" and now = 0, OF h] h
  show ?thesis by blast
qed

text \<open>
  C10 (termination and index range of \<open>FindClosest\<close>). For every distance, target and
  \<open>max\<close>, on every reachable table state the loop of \<open>FindClosest\<close> terminates without a
  panic, every index at which the bucket array is read is at most \<open>MaxProx\<close> and within the
  array, and the indices read are, in order, \<open>po, po + 1, \<dots>, MaxProx\<close> followed by
  \<open>po - 1, po - 2, \<dots>, j\<close> for some \<open>j\<close> (the index climbs to \<open>MaxProx\<close>, turns once and
  strictly decreases until it passes 0 or the loop breaks), or, only when \<open>max\<close> is 0 and the
  loop breaks while climbing, \<open>po, po + 1, \<dots>, j\<close> for some \<open>j\<close> up to \<open>MaxProx\<close>.
\<close>

theorem FindClosest_scan_terminates:
  "reachable k \<Longrightarrow>
   \<exists>s. FindClosest_scan dist k tgt mx = Some (Inr s) \<and>
       FindClosest dist k tgt mx = Some (Inr (nodes (s_r s))) \<and>
       (\<forall>i\<in>set (visited s). i \<le> MaxProx k \<and> i < length (buckets k)) \<and>
       ((\<exists>j. proximityBin k tgt \<le> j \<and> j \<le> MaxProx k \<and> mx = 0 \<and>
             visited s = [proximityBin k tgt..<j + 1]) \<or>
        (\<exists>j. j \<le> proximityBin k tgt \<and>
             visited s = [proximityBin k tgt..<MaxProx k + 1] @ rev [j..<proximityBin k tgt]))"
proof -
  assume "reachable k"
  then have len: "length (buckets k) = MaxProx k + 1" by (rule reachable_length)
  from FindClosest_scan_post[OF this, of dist tgt mx] obtain s where
    run: "FindClosest_scan dist k tgt mx = Some (Inr s)" and post: "scan_post dist k tgt mx s"
    by blast
  define po where "po = proximityBin k tgt"
  have po: "po \<le> MaxProx k" unfolding po_def by (rule proximityBin_le)
  from post have tr: "(s_step s = 1 \<and> (\<exists>j. po \<le> j \<and> j \<le> MaxProx k \<and> visited s = [po..<j + 1])) \<or>
      (s_step s = - 1 \<and> (\<exists>j. j \<le> po \<and> visited s = [po..<MaxProx k + 1] @ rev [j..<po]))"
    and st: "stopped s \<longrightarrow> (if mx = 0 then 1 else mx) \<le> s_n s \<and> (s_step s = - 1 \<or> mx = 0)"
    and ns: "\<not> stopped s \<longrightarrow> s_step s = - 1"
    unfolding scan_post_def po_def by blast+
  from st ns have z: "s_step s = 1 \<longrightarrow> mx = 0" by auto
  from tr z have shape: "(\<exists>j. po \<le> j \<and> j \<le> MaxProx k \<and> mx = 0 \<and> visited s = [po..<j + 1]) \<or>
        (\<exists>j. j \<le> po \<and> visited s = [po..<MaxProx k + 1] @ rev [j..<po])"
    by blast
  have bound: "\<forall>i\<in>set (visited s). i \<le> MaxProx k \<and> i < length (buckets k)"
    using shape po len by auto
  from run have "FindClosest dist k tgt mx = Some (Inr (nodes (s_r s)))"
    by (simp add: FindClosest_def)
  with run bound shape show ?thesis unfolding po_def by blast
qed

theorem FindClosest_scan_terminates_witness:
  "reachable table3 \<and>
   (\<exists>s. FindClosest_scan xor_distance table3 a1 2 = Some (Inr s) \<and>
       FindClosest xor_distance table3 a1 2 = Some (Inr (nodes (s_r s))) \<and>
       (\<forall>i\<in>set (visited s). i \<le> MaxProx table3 \<and> i < length (buckets table3)) \<and>
       ((\<exists>j. proximityBin table3 a1 \<le> j \<and> j \<le> MaxProx table3 \<and> (2::int) = 0 \<and>
             visited s = [proximityBin table3 a1..<j + 1]) \<or>
        (\<exists>j. j \<le> proximityBin table3 a1 \<and>
             visited s = [proximityBin table3 a1..<MaxProx table3 + 1] @
                         rev [j..<proximityBin table3 a1]))) \<and>
   map_option (map_sum id visited) (FindClosest_scan xor_distance table3 a1 2) =
     Some (Inr [1, 2, 3, 4, 5, 6, 7, 8, 0])"
proof -
  have r: "reachable table3"
    unfolding table3_def by (intro reachable_run reach_New)
  have v: "map_option (map_sum id visited) (FindClosest_scan xor_distance table3 a1 2) =
     Some (Inr [1, 2, 3, 4, 5, 6, 7, 8, 0])"
    by code_simp
  from FindClosest_scan_terminates[OF r, of xor_distance a1 2] r v show ?thesis by blast
qed

end
